theory Spec2Isabelle
  imports Complex_Main "HOL-Library.Sublist"
begin

section \<open>Bytes, errors and the standard-library calls the logger uses\<close>

text \<open>
  A Python \<open>bytes\<close> value is a list of 8-bit characters. A Python \<open>str\<close> is kept
  as the bytes of its UTF-8 form, with a lone surrogate in its three-byte form, which is
  not well-formed UTF-8: \<open>str.encode()\<close> returns the bytes of a string without
  surrogates and raises \<open>UnicodeEncodeError\<close> on the others.
\<close>

type_synonym bytes = "char list"

abbreviation SOH :: char where "SOH \<equiv> CHR 0x01"
abbreviation STX :: char where "STX \<equiv> CHR 0x02"
abbreviation LF :: char where "LF \<equiv> CHR 0x0A"
abbreviation CR :: char where "CR \<equiv> CHR 0x0D"
abbreviation ESC :: char where "ESC \<equiv> CHR 0x1B"

datatype error =
    ValueError
  | KeyError
  | TypeError
  | IndexError
  | RecursionError
  | RuntimeError
  | UnicodeDecodeError
  | UnicodeEncodeError
  | RequestException
  | ConnectionError string

text \<open>\<open>bytes.split(sep)\<close> for a one-byte separator: every occurrence of the separator
  ends a piece, so a blob with \<open>n\<close> separators gives \<open>n + 1\<close> pieces (empty ones
  included). Without \<open>maxsplit\<close>, \<open>rsplit\<close> returns the same list.\<close>

fun split_bytes :: "char \<Rightarrow> bytes \<Rightarrow> bytes list" where
  "split_bytes sep [] = [[]]"
| "split_bytes sep (c # cs) =
     (if c = sep then [] # split_bytes sep cs
      else (case split_bytes sep cs of
              p # ps \<Rightarrow> (c # p) # ps
            | [] \<Rightarrow> [[c]]))"

definition rsplit :: "char \<Rightarrow> bytes \<Rightarrow> bytes list" where
  "rsplit sep s = split_bytes sep s"

text \<open>\<open>xs[-1]\<close>: the last item, \<open>IndexError\<close> on an empty list.\<close>

definition last_item :: "'a list \<Rightarrow> error + 'a" where
  "last_item xs = (case xs of [] \<Rightarrow> Inl IndexError | _ \<Rightarrow> Inr (last xs))"

section \<open>The control-sequence pattern\<close>

text \<open>
  \<^verbatim>\<open>ansi_csi_re = re.compile(b"\001?\033\\[((?:\\d|;)*)([a-dA-D])\002?")\<close>

  In a bytes pattern \<open>\d\<close> is an ASCII digit. The pattern is matched without
  search by \<open>match_csi\<close>: an optional SOH, then ESC and \<open>[\<close>, then the longest
  run of digits and semicolons (group 1), one of the letters a-d or A-D (group 2) and an
  optional STX. Every quantifier is greedy and none can give a byte back with success: a
  run that stopped before a digit or a semicolon is not followed by a letter, and a
  pattern that skipped a leading SOH would have to read it as ESC. The result is the two
  groups and the input left after the match.
\<close>

definition is_digit :: "char \<Rightarrow> bool" where
  "is_digit c = (c \<in> set ''0123456789'')"

definition is_param :: "char \<Rightarrow> bool" where
  "is_param c = (is_digit c \<or> c = CHR '';'')"

definition is_command :: "char \<Rightarrow> bool" where
  "is_command c = (c \<in> set ''abcdABCD'')"

definition opt_byte :: "char \<Rightarrow> bytes \<Rightarrow> bytes" where
  "opt_byte b s = (case s of c # r \<Rightarrow> if c = b then r else s | [] \<Rightarrow> s)"

definition match_csi :: "bytes \<Rightarrow> (bytes \<times> char \<times> bytes) option" where
  "match_csi s =
     (case opt_byte SOH s of
        e # b # r \<Rightarrow>
          if e = ESC \<and> b = CHR ''['' then
            (case dropWhile is_param r of
               c # r' \<Rightarrow>
                 if is_command c then Some (takeWhile is_param r, c, opt_byte STX r')
                 else None
             | [] \<Rightarrow> None)
          else None
      | _ \<Rightarrow> None)"

lemma opt_byte_length: "length (opt_byte b s) \<le> length s"
  by (simp add: opt_byte_def split: list.splits)

lemma match_csi_shorter:
  assumes "match_csi s = Some (arg, cmd, rest)"
  shows "length rest < length s"
proof -
  obtain e b r where s1: "opt_byte SOH s = e # b # r"
    using assms by (auto simp: match_csi_def split: list.splits if_splits)
  obtain c r' where d: "dropWhile is_param r = c # r'" and rest: "rest = opt_byte STX r'"
    using assms s1 by (auto simp: match_csi_def split: list.splits if_splits)
  have "length (c # r') \<le> length r"
    using length_dropWhile_le [of is_param r] by (simp add: d)
  moreover have "length rest \<le> length r'"
    by (simp add: rest opt_byte_length)
  moreover have "length (e # b # r) \<le> length s"
    using opt_byte_length [of SOH s] by (simp add: s1)
  ultimately show ?thesis by simp
qed

text \<open>\<open>ansi_csi_re.finditer(line)\<close>: the groups of the leftmost non-overlapping
  matches, scanning from the left and resuming after each match.\<close>

function finditer :: "bytes \<Rightarrow> (bytes \<times> char) list" where
  "finditer [] = []"
| "finditer (c # cs) =
     (case match_csi (c # cs) of
        Some (arg, cmd, rest) \<Rightarrow> (arg, cmd) # finditer rest
      | None \<Rightarrow> finditer cs)"
  by pat_completeness auto
termination
  by (relation "measure length") (auto dest: match_csi_shorter)

text \<open>\<open>_remove_csi\<close>: \<open>re.sub(ansi_csi_re, b"", line)\<close> deletes the same matches
  in one pass and keeps every other byte.\<close>

function remove_csi :: "bytes \<Rightarrow> bytes" where
  "remove_csi [] = []"
| "remove_csi (c # cs) =
     (case match_csi (c # cs) of
        Some (arg, cmd, rest) \<Rightarrow> remove_csi rest
      | None \<Rightarrow> c # remove_csi cs)"
  by pat_completeness auto
termination
  by (relation "measure length") (auto dest: match_csi_shorter)

text \<open>
  \<open>int(arg.decode())\<close> on what group 1 can capture, a non-empty string of digits and
  semicolons: such a string is an integer literal exactly when it has no semicolon, and
  the interpreter converts a literal of at most \<open>sys.get_int_max_str_digits()\<close>
  digits, 4300 unless it has been changed, leading zeros counted.
\<close>

definition digit_value :: "char \<Rightarrow> int" where
  "digit_value c = int (of_char c) - 48"

definition int_max_str_digits :: nat where
  "int_max_str_digits = 4300"

definition int_of_param :: "bytes \<Rightarrow> error + int" where
  "int_of_param arg =
     (if arg \<noteq> [] \<and> list_all is_digit arg \<and> length arg \<le> int_max_str_digits
      then Inr (foldl (\<lambda>n c. 10 * n + digit_value c) 0 arg)
      else Inl ValueError)"

section \<open>The line filter of \<open>_store_buffered_logs\<close>\<close>

text \<open>
  The loop of \<open>_handle_csi\<close> runs over the matches of the line it was called with,
  converts each parameter string (1 when empty) and, at a cursor-up command, tests the
  current value of \<open>line\<close> and may replace it by \<open>b""\<close>. \<open>sd\<close> is
  \<open>self._shutdown\<close>.
\<close>

fun handle_matches :: "bool \<Rightarrow> (bytes \<times> char) list \<Rightarrow> bytes \<Rightarrow> error + bytes" where
  "handle_matches sd [] line = Inr line"
| "handle_matches sd ((arg, cmd) # ms) line =
     (case (if arg \<noteq> [] then int_of_param arg else Inr 1) of
        Inl e \<Rightarrow> Inl e
      | Inr n \<Rightarrow>
          handle_matches sd ms
            (if cmd = CHR ''A'' \<and>
                (\<not> sublist ''0%'' line \<and> \<not> sd \<and>
                 \<not> sublist ''[INFO]'' line \<and> \<not> sublist ''[DEBUG]'' line)
             then [] else line))"

definition handle_csi :: "bool \<Rightarrow> bytes \<Rightarrow> error + bytes" where
  "handle_csi sd line =
     (case handle_matches sd (finditer line) line of
        Inl e \<Rightarrow> Inl e
      | Inr l \<Rightarrow> Inr (remove_csi l))"

text \<open>The two statements applied to each line before it is written:
  \<^verbatim>\<open>line = _handle_csi(line)\<close> and \<^verbatim>\<open>line = line.rsplit(b"\r")[-1]\<close>.\<close>

definition filter_line :: "bool \<Rightarrow> bytes \<Rightarrow> error + bytes" where
  "filter_line sd line =
     (case handle_csi sd line of
        Inl e \<Rightarrow> Inl e
      | Inr l \<Rightarrow> last_item (rsplit CR l))"

section \<open>The capture buffer and the log file\<close>

text \<open>
  \<open>io.BytesIO\<close> as its content and its position. A write stores the data at the
  position (zero-filling a gap after the end), a read returns at most \<open>n\<close> bytes from
  the position; both advance it.
\<close>

record bytes_io =
  content :: bytes
  pos :: nat

definition new_bytes_io :: bytes_io where
  "new_bytes_io = \<lparr>content = [], pos = 0\<rparr>"

definition bio_write :: "bytes \<Rightarrow> bytes_io \<Rightarrow> bytes_io" where
  "bio_write d b =
     \<lparr>content = take (pos b) (content b) @ replicate (pos b - length (content b)) (CHR 0x00)
                 @ d @ drop (pos b + length d) (content b),
      pos = pos b + length d\<rparr>"

definition bio_seek :: "nat \<Rightarrow> bytes_io \<Rightarrow> bytes_io" where
  "bio_seek n b = b\<lparr>pos := n\<rparr>"

definition bio_read :: "nat \<Rightarrow> bytes_io \<Rightarrow> bytes \<times> bytes_io" where
  "bio_read n b =
     (let d = take n (drop (pos b) (content b)) in (d, b\<lparr>pos := pos b + length d\<rparr>))"

text \<open>
  \<open>line.decode()\<close> is the strict UTF-8 decoder: it accepts exactly the well-formed byte
  sequences (no overlong form, no surrogate, nothing above U+10FFFF).
\<close>

definition in_range :: "nat \<Rightarrow> nat \<Rightarrow> char \<Rightarrow> bool" where
  "in_range lo hi c = (lo \<le> of_char c \<and> of_char c \<le> hi)"

definition cont :: "char \<Rightarrow> bool" where
  "cont c = in_range 0x80 0xBF c"

fun utf8_valid :: "bytes \<Rightarrow> bool" where
  "utf8_valid [] = True"
| "utf8_valid (a # r) =
     (if in_range 0x00 0x7F a then utf8_valid r
      else if in_range 0xC2 0xDF a then
        (case r of b # r1 \<Rightarrow> cont b \<and> utf8_valid r1 | _ \<Rightarrow> False)
      else if in_range 0xE0 0xEF a then
        (case r of
           b # c # r2 \<Rightarrow>
             (if a = CHR 0xE0 then in_range 0xA0 0xBF b
              else if a = CHR 0xED then in_range 0x80 0x9F b
              else cont b) \<and> cont c \<and> utf8_valid r2
         | _ \<Rightarrow> False)
      else if in_range 0xF0 0xF4 a then
        (case r of
           b # c # d # r3 \<Rightarrow>
             (if a = CHR 0xF0 then in_range 0x90 0xBF b
              else if a = CHR 0xF4 then in_range 0x80 0x8F b
              else cont b) \<and> cont c \<and> cont d \<and> utf8_valid r3
         | _ \<Rightarrow> False)
      else False)"

definition decode :: "bytes \<Rightarrow> error + string" where
  "decode b = (if utf8_valid b then Inr b else Inl UnicodeDecodeError)"

section \<open>Monitors and the process-wide state\<close>

text \<open>
  The fields \<open>__init__\<close> sets and the methods read (\<open>_old_out\<close>, \<open>_old_err\<close>
  and \<open>artifact_save_dir\<close> are never read; the tracking client is the list of calls
  it received, in the state below). The log file's path is \<open>path_child\<close> of the
  directory; creating the directory is left out. The collector thread
  object is two flags: whether it has been started, and whether it is running (its loop
  is modelled in its own section). \<open>collected\<close> says that the monitor has been
  garbage-collected.
\<close>

text \<open>
  \<open>str(Path(directory, name))\<close> for a plain file name, as \<open>pathlib\<close> makes it on a
  POSIX system: the root is \<open>//\<close> for exactly two leading slashes and \<open>/\<close> for any
  other number of them, and the empty and the \<open>.\<close> segments are dropped.
\<close>

definition path_root :: "string \<Rightarrow> string" where
  "path_root p =
     (let n = length (takeWhile (\<lambda>c. c = CHR ''/'') p)
      in if n = 0 then [] else if n = 2 then ''//'' else ''/'')"

definition path_parts :: "string \<Rightarrow> string list" where
  "path_parts p = filter (\<lambda>x. x \<noteq> [] \<and> x \<noteq> ''.'') (split_bytes (CHR ''/'') p)"

fun join_parts :: "string list \<Rightarrow> string" where
  "join_parts [] = []"
| "join_parts [x] = x"
| "join_parts (x # y # r) = x @ ''/'' @ join_parts (y # r)"

definition path_child :: "string \<Rightarrow> string \<Rightarrow> string" where
  "path_child directory name = path_root directory @ join_parts (path_parts directory @ [name])"

record monitor =
  run_id :: string
  file_save_path :: string
  log_capture_interval :: rat
  log_time_interval :: rat
  io_buffer :: bytes_io
  th_collector_started :: bool
  th_collector_alive :: bool
  shutdown :: bool
  started :: bool
  collected :: bool

definition LogsMonitor_init :: "string \<Rightarrow> string \<Rightarrow> rat \<Rightarrow> monitor" where
  "LogsMonitor_init artifact_save_dir rid interval =
     \<lparr>run_id = rid,
      file_save_path = path_child artifact_save_dir ''terminal_log.txt'',
      log_capture_interval = 1,
      log_time_interval = interval,
      io_buffer = new_bytes_io,
      th_collector_started = False,
      th_collector_alive = False,
      shutdown = False,
      started = False,
      collected = False\<rparr>"

text \<open>
  The functions that can stand in \<open>sys.stdout.write\<close> and \<open>sys.stderr.write\<close>: the
  two the interpreter starts with, and the closures \<open>new_out_write\<close> and
  \<open>new_err_write\<close>. The closures read \<open>cls._old_out_write\<close> and
  \<open>cls._buffer_registry\<close> when they are called, so all closures of one kind behave
  alike.
\<close>

datatype writer = Orig_out | Orig_err | New_out_write | New_err_write

datatype data = Str string | Bytes bytes

text \<open>
  The class attributes of \<open>LogsMonitor\<close>, the two stream attributes, the monitors by
  identity (\<open>id(self)\<close>), and what the program does to the outside: the text that
  reached the terminal, the files, and the calls of \<open>experiment.log_artifact\<close>. The
  registry is the list of its keys in insertion order; the value of key \<open>i\<close> is the
  buffer of monitor \<open>i\<close>. The registry holds its values weakly: an entry vanishes
  when its buffer is collected, which happens with the monitor, the only object that
  refers to the buffer (the step \<open>Gc\<close> below).
  \<open>installs\<close> and \<open>uninstalls\<close> count the calls of the two class methods.
\<close>

record state =
  stdout_write :: "writer option"
  stderr_write :: "writer option"
  old_out_write :: "writer option"
  old_err_write :: "writer option"
  buffer_registry :: "nat list"
  monitors :: "nat \<Rightarrow> monitor"
  terminal_out :: string
  terminal_err :: string
  files :: "string \<Rightarrow> string option"
  artifacts :: "(string \<times> string) list"
  installs :: nat
  uninstalls :: nat

definition initial_state :: "(nat \<Rightarrow> string \<times> string \<times> rat) \<Rightarrow> state" where
  "initial_state cfg =
     \<lparr>stdout_write = Some Orig_out,
      stderr_write = Some Orig_err,
      old_out_write = None,
      old_err_write = None,
      buffer_registry = [],
      monitors = (\<lambda>i. case cfg i of (dir, rid, interval) \<Rightarrow> LogsMonitor_init dir rid interval),
      terminal_out = [],
      terminal_err = [],
      files = (\<lambda>p. None),
      artifacts = [],
      installs = 0,
      uninstalls = 0\<rparr>"

text \<open>For examples: every monitor logs the run \<open>run\<close> into the directory \<open>out\<close>,
  with the default interval.\<close>

definition example_cfg :: "nat \<Rightarrow> string \<times> string \<times> rat" where
  "example_cfg = (\<lambda>i. (''out'', ''run'', 30))"

definition upd_monitor :: "nat \<Rightarrow> (monitor \<Rightarrow> monitor) \<Rightarrow> state \<Rightarrow> state" where
  "upd_monitor i f s = s\<lparr>monitors := (monitors s)(i := f (monitors s i))\<rparr>"

definition append_file :: "string \<Rightarrow> string \<Rightarrow> state \<Rightarrow> state" where
  "append_file path t s =
     s\<lparr>files := (files s)(path \<mapsto> (case files s path of None \<Rightarrow> t | Some old \<Rightarrow> old @ t))\<rparr>"

section \<open>Stream patches\<close>

definition install_stream_patches :: "state \<Rightarrow> state" where
  "install_stream_patches s =
     s\<lparr>old_out_write := stdout_write s,
       old_err_write := stderr_write s,
       stdout_write := Some New_out_write,
       stderr_write := Some New_err_write,
       installs := Suc (installs s)\<rparr>"

definition uninstall_stream_patches :: "state \<Rightarrow> state" where
  "uninstall_stream_patches s =
     s\<lparr>stdout_write := old_out_write s,
       stderr_write := old_err_write s,
       uninstalls := Suc (uninstalls s)\<rparr>"

text \<open>\<^verbatim>\<open>for buffer in cls._buffer_registry.values(): buffer.write(data)\<close>\<close>

definition fan_out :: "bytes \<Rightarrow> state \<Rightarrow> state" where
  "fan_out b s =
     foldl (\<lambda>s' i. upd_monitor i (\<lambda>m. m\<lparr>io_buffer := bio_write b (io_buffer m)\<rparr>) s')
       s (buffer_registry s)"

text \<open>\<^verbatim>\<open>if isinstance(data, str): data = data.encode()\<close>\<close>

definition encode :: "data \<Rightarrow> error + bytes" where
  "encode d =
     (case d of
        Str t \<Rightarrow> if utf8_valid t then Inr t else Inl UnicodeEncodeError
      | Bytes b \<Rightarrow> Inr b)"

text \<open>
  Calling a writer. The original sinks are text streams: they take a \<open>str\<close> and
  raise \<open>TypeError\<close> on bytes; with the interpreter's settings standard output is
  strict about what it cannot encode and standard error replaces it. A closure calls the
  class attribute first, then encodes a \<open>str\<close>, then writes to the buffers; calling
  \<open>None\<close> is a \<open>TypeError\<close>, and a closure captured as its own original recurses
  until the interpreter's limit on nested calls, the first argument, is used up.
\<close>

fun call_writer :: "nat \<Rightarrow> writer \<Rightarrow> data \<Rightarrow> state \<Rightarrow> error option \<times> state" where
  "call_writer 0 w d s = (Some RecursionError, s)"
| "call_writer (Suc k) Orig_out d s =
     (case d of
        Str t \<Rightarrow>
          if utf8_valid t then (None, s\<lparr>terminal_out := terminal_out s @ t\<rparr>)
          else (Some UnicodeEncodeError, s)
      | Bytes b \<Rightarrow> (Some TypeError, s))"
| "call_writer (Suc k) Orig_err d s =
     (case d of
        Str t \<Rightarrow> (None, s\<lparr>terminal_err := terminal_err s @ t\<rparr>)
      | Bytes b \<Rightarrow> (Some TypeError, s))"
| "call_writer (Suc k) New_out_write d s =
     (case old_out_write s of
        None \<Rightarrow> (Some TypeError, s)
      | Some w \<Rightarrow>
          (case call_writer k w d s of
             (Some e, s') \<Rightarrow> (Some e, s')
           | (None, s') \<Rightarrow>
               (case encode d of
                  Inl e \<Rightarrow> (Some e, s')
                | Inr b \<Rightarrow> (None, fan_out b s'))))"
| "call_writer (Suc k) New_err_write d s =
     (case old_err_write s of
        None \<Rightarrow> (Some TypeError, s)
      | Some w \<Rightarrow>
          (case call_writer k w d s of
             (Some e, s') \<Rightarrow> (Some e, s')
           | (None, s') \<Rightarrow>
               (case encode d of
                  Inl e \<Rightarrow> (Some e, s')
                | Inr b \<Rightarrow> (None, fan_out b s'))))"

definition recursion_limit :: nat where
  "recursion_limit = 1000"

definition sys_stdout_write :: "data \<Rightarrow> state \<Rightarrow> error option \<times> state" where
  "sys_stdout_write d s =
     (case stdout_write s of
        None \<Rightarrow> (Some TypeError, s)
      | Some w \<Rightarrow> call_writer recursion_limit w d s)"

definition sys_stderr_write :: "data \<Rightarrow> state \<Rightarrow> error option \<times> state" where
  "sys_stderr_write d s =
     (case stderr_write s of
        None \<Rightarrow> (Some TypeError, s)
      | Some w \<Rightarrow> call_writer recursion_limit w d s)"

section \<open>Flushing, starting and finishing\<close>

text \<open>
  A method returns the exception it raised, if any, and the state it left behind. The
  records sent to \<open>LOGGER\<close> are not part of a method's model: the logger's
  handlers are set up outside this module, and whatever they write to a stream is a
  write before \<open>finish\<close> does anything else or after \<open>start\<close> has done everything
  else, which the runs below cover as writes between two calls. Failures of the
  file system and of the tracking client are left out.
\<close>

text \<open>The body of \<^verbatim>\<open>with self.file_save_path.open("a") as logfile\<close>: an
  exception leaves the loop, and the text written before it stays in the file.\<close>

fun write_lines :: "bool \<Rightarrow> string \<Rightarrow> bytes list \<Rightarrow> state \<Rightarrow> error option \<times> state" where
  "write_lines sd path [] s = (None, s)"
| "write_lines sd path (line # ls) s =
     (case filter_line sd line of
        Inl e \<Rightarrow> (Some e, s)
      | Inr l \<Rightarrow>
          (case decode l of
             Inl e \<Rightarrow> (Some e, s)
           | Inr t \<Rightarrow> write_lines sd path ls (append_file path t s)))"

definition store_buffered_logs :: "nat \<Rightarrow> state \<Rightarrow> error option \<times> state" where
  "store_buffered_logs i s =
     (let m = monitors s i;
          buffer_size = pos (io_buffer m)
      in if buffer_size = 0 then (None, s)
         else
           (let (blob, b) = bio_read buffer_size (bio_seek 0 (io_buffer m));
                s1 = upd_monitor i (\<lambda>m. m\<lparr>io_buffer := bio_seek 0 b\<rparr>) s;
                lines = map (\<lambda>e. e @ [LF]) (filter (\<lambda>e. e \<noteq> []) (split_bytes LF blob));
                path = file_save_path m
            in case write_lines (shutdown m) path lines (append_file path [] s1) of
                 (Some e, s2) \<Rightarrow> (Some e, s2)
               | (None, s2) \<Rightarrow> (None, s2\<lparr>artifacts := artifacts s2 @ [(run_id m, path)]\<rparr>)))"

text \<open>\<open>start\<close>. Assigning to a key the registry already has keeps its place;
  starting a thread a second time is a \<open>RuntimeError\<close>.\<close>

definition start :: "nat \<Rightarrow> state \<Rightarrow> error option \<times> state" where
  "start i s =
     (if started (monitors s i) then (None, s)
      else
        (let s1 = upd_monitor i (\<lambda>m. m\<lparr>started := True\<rparr>) s;
             s2 = (if buffer_registry s1 = [] then install_stream_patches s1 else s1);
             s3 = s2\<lparr>buffer_registry :=
                       (if i \<in> set (buffer_registry s2) then buffer_registry s2
                        else buffer_registry s2 @ [i])\<rparr>
         in if th_collector_started (monitors s3 i) then (Some RuntimeError, s3)
            else (None,
                  upd_monitor i
                    (\<lambda>m. m\<lparr>th_collector_started := True, th_collector_alive := True\<rparr>) s3)))"

text \<open>\<open>finish\<close>. \<open>del\<close> of a key the registry does not have is a \<open>KeyError\<close>.
  The status is used in the log record only.\<close>

definition finish :: "nat \<Rightarrow> string \<Rightarrow> state \<Rightarrow> error option \<times> state" where
  "finish i status s =
     (if \<not> started (monitors s i) then (None, s)
      else
        (let s1 = upd_monitor i (\<lambda>m. m\<lparr>shutdown := True\<rparr>) s
         in case store_buffered_logs i s1 of
              (Some e, s2) \<Rightarrow> (Some e, s2)
            | (None, s2) \<Rightarrow>
                if i \<notin> set (buffer_registry s2) then (Some KeyError, s2)
                else
                  (let s3 = s2\<lparr>buffer_registry := removeAll i (buffer_registry s2)\<rparr>;
                       s4 = (if buffer_registry s3 = [] then uninstall_stream_patches s3 else s3)
                   in (None, append_file (file_save_path (monitors s4 i)) [LF, LF] s4))))"

text \<open>
  What can happen to the process, one step at a time. A monitor that still exists is
  started or finished; something is written to one of the streams; the collector thread
  of a monitor comes to the end of a sleep and flushes, and an exception in the flush
  ends the thread (the traceback it prints is a write to standard error); the thread finds the shutdown flag set and leaves its loop; a monitor
  is garbage-collected. A running thread keeps its monitor alive (the thread's target is
  a method of the monitor), so a monitor can be collected once its thread is not running
  and its owner has dropped it, and its entry leaves the weak registry with it. A run
  performs the steps in order; an exception ends its call and the run goes on from
  the state the call left. A call to a collected monitor cannot happen and is skipped.
\<close>

datatype call =
    Start nat
  | Finish nat string
  | Write_out data
  | Write_err data
  | Collect nat
  | Loop_exit nat
  | Gc nat

fun exec :: "call \<Rightarrow> state \<Rightarrow> error option \<times> state" where
  "exec (Start i) s = (if collected (monitors s i) then (None, s) else start i s)"
| "exec (Finish i status) s =
     (if collected (monitors s i) then (None, s) else finish i status s)"
| "exec (Write_out d) s = sys_stdout_write d s"
| "exec (Write_err d) s = sys_stderr_write d s"
| "exec (Collect i) s =
     (if th_collector_alive (monitors s i) then
        (case store_buffered_logs i s of
           (Some e, s') \<Rightarrow> (Some e, upd_monitor i (\<lambda>m. m\<lparr>th_collector_alive := False\<rparr>) s')
         | (None, s') \<Rightarrow> (None, s'))
      else (None, s))"
| "exec (Loop_exit i) s =
     (if th_collector_alive (monitors s i) \<and> shutdown (monitors s i)
      then (None, upd_monitor i (\<lambda>m. m\<lparr>th_collector_alive := False\<rparr>) s)
      else (None, s))"
| "exec (Gc i) s =
     (if \<not> th_collector_alive (monitors s i) \<and> \<not> collected (monitors s i)
      then (None, (upd_monitor i (\<lambda>m. m\<lparr>collected := True\<rparr>) s)
                    \<lparr>buffer_registry := removeAll i (buffer_registry s)\<rparr>)
      else (None, s))"

definition run :: "call list \<Rightarrow> state \<Rightarrow> state" where
  "run cs s = foldl (\<lambda>s' c. snd (exec c s')) s cs"

text \<open>For examples: monitor 0 is started, a line with the sequence \<open>ESC [1;2A\<close> is
  written to standard output, the collector thread flushes (and ends, since the filter
  raises on that line), and the monitor is collected.\<close>

definition collected_run :: "call list" where
  "collected_run =
     [Start 0, Write_out (Str ([ESC] @ ''[1;2A'' @ [LF])), Collect 0, Gc 0]"

definition installed :: "state \<Rightarrow> bool" where
  "installed s = (stdout_write s = Some New_out_write \<and> stderr_write s = Some New_err_write)"

text \<open>
  For the proofs: the part of the state the class attributes and the stream attributes
  make up, and the relation between the registry and the patches that every call keeps.
\<close>

definition class_part ::
  "state \<Rightarrow> writer option \<times> writer option \<times> writer option \<times> writer option \<times> nat list \<times> nat \<times> nat" where
  "class_part s =
     (stdout_write s, stderr_write s, old_out_write s, old_err_write s,
      buffer_registry s, installs s, uninstalls s)"

definition patch_invariant :: "state \<Rightarrow> bool" where
  "patch_invariant s =
     (if buffer_registry s = []
      then stdout_write s = Some Orig_out \<and> stderr_write s = Some Orig_err \<and>
           (old_out_write s = None \<or> old_out_write s = Some Orig_out) \<and>
           (old_err_write s = None \<or> old_err_write s = Some Orig_err) \<and>
           installs s = uninstalls s
      else stdout_write s = Some New_out_write \<and> stderr_write s = Some New_err_write \<and>
           old_out_write s = Some Orig_out \<and> old_err_write s = Some Orig_err \<and>
           installs s = Suc (uninstalls s))"

section \<open>The collector thread\<close>




section \<open>The health check\<close>

text \<open>
  \<open>env\<close> is \<open>os.getenv\<close>; \<open>http_get url headers timeout\<close> is \<open>requests.get\<close>,
  which gives the text of the response or raises. An f-string prints \<open>None\<close> as
  \<open>None\<close>, and \<open>not token\<close> holds for \<open>None\<close> and for the empty string.
\<close>

definition format_opt :: "string option \<Rightarrow> string" where
  "format_opt v = (case v of None \<Rightarrow> ''None'' | Some t \<Rightarrow> t)"

definition falsy :: "string option \<Rightarrow> bool" where
  "falsy v = (case v of None \<Rightarrow> True | Some t \<Rightarrow> t = [])"

definition health_check ::
  "(string \<Rightarrow> string option) \<Rightarrow> (string \<Rightarrow> (string \<times> string) list \<Rightarrow> nat \<Rightarrow> error + string)
     \<Rightarrow> string \<Rightarrow> error + unit" where
  "health_check env http_get tracking_uri =
     (let token = env ''MLFLOW_TRACKING_TOKEN'';
          headers = [(''Authorization'', ''Bearer '' @ format_opt token)]
      in case http_get (tracking_uri @ ''/health'') headers 60 of
           Inl e \<Rightarrow> Inl e
         | Inr response_text \<Rightarrow>
             if response_text = ''OK'' then Inr ()
             else
               (let error_msg = ''Could not connect to MLflow server at '' @ tracking_uri @ ''. '';
                    error_msg' =
                      (if falsy token
                       then error_msg @
                            ''The server may require authentication, did you forget to turn it on in the config?''
                       else error_msg)
                in Inl (ConnectionError error_msg')))"

section \<open>Hyperparameters\<close>

text \<open>
  A dictionary is the list of its items in insertion order, with distinct keys. Keys are
  kept as their UTF-8 bytes, on which \<open>startswith\<close> is the prefix order; the printed
  form of a value is a list of code points of any type, since \<open>[:250]\<close> counts code
  points.
\<close>

definition prefixes_to_remove :: "string list" where
  "prefixes_to_remove =
     [''hardware'', ''data'', ''dataloader'', ''model'', ''training'', ''diagnostics'',
      ''metadata.config'']"

definition del_item :: "string \<Rightarrow> (string \<times> 'v) list \<Rightarrow> error + (string \<times> 'v) list" where
  "del_item key params =
     (if key \<in> set (map fst params) then Inr (filter (\<lambda>kv. fst kv \<noteq> key) params)
      else Inl KeyError)"

fun del_items :: "string list \<Rightarrow> (string \<times> 'v) list \<Rightarrow> error + (string \<times> 'v) list" where
  "del_items [] params = Inr params"
| "del_items (key # keys) params =
     (case del_item key params of
        Inl e \<Rightarrow> Inl e
      | Inr params' \<Rightarrow> del_items keys params')"

definition clean_params :: "(string \<times> 'v) list \<Rightarrow> error + (string \<times> 'v) list" where
  "clean_params params =
     (let keys_to_remove =
            filter (\<lambda>key. list_ex (\<lambda>p. prefix p key) prefixes_to_remove) (map fst params)
      in del_items keys_to_remove params)"

text \<open>\<^verbatim>\<open>for idx in range(0, len(params_list), 100): log_batch(params_list[idx : idx + 100])\<close>:
  the batches sent, from index \<open>idx\<close> on.\<close>

function batches_from :: "nat \<Rightarrow> 'a list \<Rightarrow> 'a list list" where
  "batches_from idx params_list =
     (if idx < length params_list
      then take 100 (drop idx params_list) # batches_from (idx + 100) params_list
      else [])"
  by pat_completeness auto
termination
  by (relation "measure (\<lambda>(idx, params_list). length params_list - idx)") auto

text \<open>
  The body of \<open>log_hyperparams\<close>, run by the process the rank-zero decorator of the
  training library lets through. \<open>convert_params\<close> and \<open>flatten_dict\<close> are that
  library's functions and \<open>str_of\<close> is \<open>str\<close>; the last argument and the result
  are the \<open>log_batch\<close> calls the tracking client has received, each the list of its
  \<open>Param(key, value)\<close> pairs.
\<close>

definition log_hyperparams ::
  "bool \<Rightarrow> ('p \<Rightarrow> 'd) \<Rightarrow> ('d \<Rightarrow> string \<Rightarrow> (string \<times> 'v) list) \<Rightarrow> ('v \<Rightarrow> 'c list) \<Rightarrow> 'p
     \<Rightarrow> (string \<times> 'c list) list list \<Rightarrow> error option \<times> (string \<times> 'c list) list list" where
  "log_hyperparams flag_log_hparams convert_params flatten_dict str_of params calls =
     (if flag_log_hparams then
        (case clean_params (flatten_dict (convert_params params) ''.'') of
           Inl e \<Rightarrow> (Some e, calls)
         | Inr cleaned \<Rightarrow>
             (let params_list = map (\<lambda>(k, v). (k, take 250 (str_of v))) cleaned
              in (None, calls @ batches_from 0 params_list)))
      else (None, calls))"

section \<open>Evaluation rules\<close>

lemmas filter_eval =
  match_csi_def opt_byte_def is_param_def is_digit_def is_command_def handle_csi_def
  filter_line_def rsplit_def last_item_def int_of_param_def int_max_str_digits_def
  digit_value_def sublist_code

lemmas state_eval =
  recursion_limit_def run_def start_def finish_def initial_state_def example_cfg_def
  LogsMonitor_init_def
  path_child_def path_root_def path_parts_def
  upd_monitor_def install_stream_patches_def uninstall_stream_patches_def
  sys_stdout_write_def sys_stderr_write_def new_bytes_io_def fan_out_def encode_def
  bio_write_def bio_read_def bio_seek_def store_buffered_logs_def append_file_def
  decode_def in_range_def cont_def

lemma call_writer_numeral:
  "call_writer (numeral k) Orig_out d s =
     (case d of
        Str t \<Rightarrow>
          if utf8_valid t then (None, s\<lparr>terminal_out := terminal_out s @ t\<rparr>)
          else (Some UnicodeEncodeError, s)
      | Bytes b \<Rightarrow> (Some TypeError, s))"
  "call_writer (numeral k) Orig_err d s =
     (case d of Str t \<Rightarrow> (None, s\<lparr>terminal_err := terminal_err s @ t\<rparr>)
      | Bytes b \<Rightarrow> (Some TypeError, s))"
  "call_writer (numeral k) New_out_write d s =
     (case old_out_write s of None \<Rightarrow> (Some TypeError, s)
      | Some w \<Rightarrow>
          (case call_writer (pred_numeral k) w d s of
             (Some e, s') \<Rightarrow> (Some e, s')
           | (None, s') \<Rightarrow>
               (case encode d of
                  Inl e \<Rightarrow> (Some e, s')
                | Inr b \<Rightarrow> (None, fan_out b s'))))"
  "call_writer (numeral k) New_err_write d s =
     (case old_err_write s of None \<Rightarrow> (Some TypeError, s)
      | Some w \<Rightarrow>
          (case call_writer (pred_numeral k) w d s of
             (Some e, s') \<Rightarrow> (Some e, s')
           | (None, s') \<Rightarrow>
               (case encode d of
                  Inl e \<Rightarrow> (Some e, s')
                | Inr b \<Rightarrow> (None, fan_out b s'))))"
  by (simp_all only: numeral_eq_Suc call_writer.simps)

lemma path_child_examples:
  "path_child ''out'' ''terminal_log.txt'' = ''out/terminal_log.txt''"
  "path_child ''out/'' ''terminal_log.txt'' = ''out/terminal_log.txt''"
  "path_child ''./out//plots'' ''terminal_log.txt'' = ''out/plots/terminal_log.txt''"
  "path_child [] ''terminal_log.txt'' = ''terminal_log.txt''"
  "path_child ''/'' ''terminal_log.txt'' = ''/terminal_log.txt''"
  by (simp_all add: path_child_def path_root_def path_parts_def)

section \<open>Splitting at a separator\<close>

lemma split_bytes_nonempty: "split_bytes sep s \<noteq> []"
  by (induction s) (auto split: list.splits)

lemma split_bytes_no_sep: "sep \<notin> set s \<Longrightarrow> split_bytes sep s = [s]"
  by (induction s) auto

lemma split_single: "split_bytes sep s = [x] \<Longrightarrow> sep \<notin> set s"
  by (induction s arbitrary: x) (auto split: if_splits list.splits simp: split_bytes_nonempty)

lemma last_split_no_sep: "sep \<notin> set (last (split_bytes sep s))"
  by (induction s) (auto split: list.splits simp: split_bytes_nonempty)

lemma last_split_suffix:
  "sep \<in> set s \<Longrightarrow> \<exists>pre. s = pre @ sep # last (split_bytes sep s)"
proof (induction s)
  case Nil
  then show ?case by simp
next
  case (Cons c cs)
  show ?case
  proof (cases "sep \<in> set cs")
    case True
    then obtain pre where pre: "cs = pre @ sep # last (split_bytes sep cs)"
      using Cons.IH by blast
    have "last (split_bytes sep (c # cs)) = last (split_bytes sep cs)"
      using True by (auto split: list.splits simp: split_bytes_nonempty dest: split_single)
    then show ?thesis using pre
      by (metis append_Cons)
  next
    case False
    then have "c = sep" using Cons.prems by simp
    then have "last (split_bytes sep (c # cs)) = cs"
      using False by (simp add: split_bytes_no_sep split_bytes_nonempty)
    then show ?thesis using \<open>c = sep\<close> by (metis append_Nil)
  qed
qed

lemma last_item_split: "last_item (rsplit sep s) = Inr (last (split_bytes sep s))"
  by (simp add: last_item_def rsplit_def split_bytes_nonempty split: list.splits)

section \<open>What the pattern finds\<close>

lemma command_not_param: "is_command c \<Longrightarrow> \<not> is_param c"
  by (auto simp: is_command_def is_param_def is_digit_def)

lemma match_csi_structure:
  assumes "match_csi s = Some (a, c, rest)"
  shows "\<exists>soh stx. s = soh @ ESC # CHR ''['' # a @ c # stx @ rest \<and>
           (soh = [] \<or> soh = [SOH]) \<and> (stx = [] \<or> stx = [STX]) \<and>
           list_all is_param a \<and> is_command c"
proof -
  obtain r where s1: "opt_byte SOH s = ESC # CHR ''['' # r"
    using assms by (auto simp: match_csi_def split: list.splits if_splits)
  obtain r' where d: "dropWhile is_param r = c # r'" and c: "is_command c"
    and a: "a = takeWhile is_param r" and rest: "rest = opt_byte STX r'"
    using assms s1 by (auto simp: match_csi_def split: list.splits if_splits)
  have r: "r = a @ c # r'"
    using takeWhile_dropWhile_id [of is_param r] by (simp add: a d)
  have "\<exists>soh. s = soh @ opt_byte SOH s \<and> (soh = [] \<or> soh = [SOH])"
    by (auto simp: opt_byte_def split: list.splits)
  moreover have "\<exists>stx. r' = stx @ rest \<and> (stx = [] \<or> stx = [STX])"
    by (auto simp: rest opt_byte_def split: list.splits)
  moreover have "list_all is_param a"
    by (simp add: a list_all_iff) (meson set_takeWhileD)
  ultimately show ?thesis using s1 r c by auto
qed

lemma match_csi_core:
  assumes "list_all is_param a" and "is_command c"
  shows "match_csi (ESC # CHR ''['' # a @ c # post) = Some (a, c, opt_byte STX post)"
proof -
  have np: "\<not> is_param c" using assms(2) by (rule command_not_param)
  have t: "takeWhile is_param (a @ c # post) = a"
    using assms(1) np by (simp add: list_all_iff takeWhile_append2)
  have d: "dropWhile is_param (a @ c # post) = c # post"
    using assms(1) np by (simp add: list_all_iff dropWhile_append2)
  show ?thesis
    using assms(2) by (simp add: match_csi_def opt_byte_def t d)
qed

lemma finditer_params:
  "(arg, cmd) \<in> set (finditer s) \<Longrightarrow> list_all is_param arg \<and> is_command cmd"
proof (induction s rule: length_induct)
  case (1 s)
  show ?case
  proof (cases s)
    case Nil
    then show ?thesis using "1.prems" by simp
  next
    case (Cons x xs)
    show ?thesis
    proof (cases "match_csi (x # xs)")
      case None
      then have "(arg, cmd) \<in> set (finditer xs)" using "1.prems" Cons by simp
      moreover have "length xs < length s" using Cons by simp
      ultimately show ?thesis using "1.IH" by blast
    next
      case (Some m)
      obtain a c rest where m: "m = (a, c, rest)" by (cases m) auto
      have sh: "length rest < length s"
        using Some m Cons match_csi_shorter by blast
      have "(arg, cmd) = (a, c) \<or> (arg, cmd) \<in> set (finditer rest)"
        using "1.prems" Cons Some m by simp
      then show ?thesis
      proof
        assume "(arg, cmd) = (a, c)"
        then show ?thesis using match_csi_structure Some m by blast
      next
        assume "(arg, cmd) \<in> set (finditer rest)"
        then show ?thesis using "1.IH" sh by blast
      qed
    qed
  qed
qed

lemma int_of_param_semicolon: "CHR '';'' \<in> set arg \<Longrightarrow> int_of_param arg = Inl ValueError"
proof -
  assume "CHR '';'' \<in> set arg"
  moreover have "\<not> is_digit (CHR '';'')" by (simp add: is_digit_def)
  ultimately have "\<not> list_all is_digit arg" by (auto simp: list_all_iff)
  then show ?thesis by (simp add: int_of_param_def)
qed

lemma int_of_param_ok:
  assumes "list_all is_param arg" and "arg \<noteq> []" and "CHR '';'' \<notin> set arg"
    and "length arg \<le> int_max_str_digits"
  shows "\<exists>n. int_of_param arg = Inr n"
proof -
  have "list_all is_digit arg"
    using assms(1,3) by (induction arg) (auto simp: is_param_def)
  then show ?thesis using assms(2,4) by (simp add: int_of_param_def)
qed

lemma handle_matches_ok:
  assumes "\<forall>(arg, cmd) \<in> set ms. list_all is_param arg \<and> CHR '';'' \<notin> set arg \<and>
             length arg \<le> int_max_str_digits"
  shows "handle_matches sd ms line =
     Inr (if (\<exists>arg. (arg, CHR ''A'') \<in> set ms) \<and>
             (\<not> sublist ''0%'' line \<and> \<not> sd \<and>
              \<not> sublist ''[INFO]'' line \<and> \<not> sublist ''[DEBUG]'' line)
          then [] else line)"
  using assms
proof (induction ms arbitrary: line)
  case Nil
  then show ?case by simp
next
  case (Cons m ms)
  obtain arg cmd where m: "m = (arg, cmd)" by (cases m) auto
  have p: "list_all is_param arg" "CHR '';'' \<notin> set arg" "length arg \<le> int_max_str_digits"
    using Cons.prems m by auto
  have conv: "\<exists>n. (if arg \<noteq> [] then int_of_param arg else Inr 1) = Inr n"
  proof (cases "arg = []")
    case True
    then show ?thesis by simp
  next
    case False
    then show ?thesis using int_of_param_ok [OF p(1) False p(2) p(3)] by simp
  qed
  have rest: "\<forall>(arg, cmd) \<in> set ms. list_all is_param arg \<and> CHR '';'' \<notin> set arg \<and>
                length arg \<le> int_max_str_digits"
    using Cons.prems by simp
  show ?case
    using conv Cons.IH [OF rest] by (auto simp: m)
qed

lemma handle_matches_raises:
  assumes "(arg, cmd) \<in> set ms" and "CHR '';'' \<in> set arg"
  shows "handle_matches sd ms line = Inl ValueError"
  using assms(1)
proof (induction ms arbitrary: line)
  case Nil
  then show ?case by simp
next
  case (Cons m ms)
  obtain a c where m: "m = (a, c)" by (cases m) auto
  show ?case
  proof (cases "(a \<noteq> [] \<and> int_of_param a = Inl ValueError)")
    case True
    then show ?thesis by (simp add: m)
  next
    case False
    then have ok: "\<exists>n. (if a \<noteq> [] then int_of_param a else Inr 1) = Inr n"
      by (auto simp: int_of_param_def)
    have "a \<noteq> arg"
    proof
      assume "a = arg"
      then have "arg \<noteq> [] \<and> int_of_param arg = Inl ValueError"
        using assms(2) int_of_param_semicolon by fastforce
      then show False using False \<open>a = arg\<close> by simp
    qed
    then have "(arg, cmd) \<in> set ms" using Cons.prems m by auto
    then have "\<And>l. handle_matches sd ms l = Inl ValueError" using Cons.IH by blast
    then show ?thesis using ok by (auto simp: m)
  qed
qed

lemma handle_csi_policy:
  "(\<forall>(arg, cmd) \<in> set (finditer line).
       CHR '';'' \<notin> set arg \<and> length arg \<le> int_max_str_digits) \<Longrightarrow>
     handle_csi sd line =
       Inr (if (\<exists>arg. (arg, CHR ''A'') \<in> set (finditer line)) \<and>
               (\<not> sublist ''0%'' line \<and> \<not> sd \<and>
                \<not> sublist ''[INFO]'' line \<and> \<not> sublist ''[DEBUG]'' line)
            then [] else remove_csi line)"
  "(\<exists>(arg, cmd) \<in> set (finditer line). CHR '';'' \<in> set arg) \<Longrightarrow>
     handle_csi sd line = Inl ValueError"
proof -
  assume ok: "\<forall>(arg, cmd) \<in> set (finditer line).
                 CHR '';'' \<notin> set arg \<and> length arg \<le> int_max_str_digits"
  have "\<forall>(arg, cmd) \<in> set (finditer line). list_all is_param arg \<and> CHR '';'' \<notin> set arg \<and>
          length arg \<le> int_max_str_digits"
    using ok finditer_params by fastforce
  then show "handle_csi sd line =
       Inr (if (\<exists>arg. (arg, CHR ''A'') \<in> set (finditer line)) \<and>
               (\<not> sublist ''0%'' line \<and> \<not> sd \<and>
                \<not> sublist ''[INFO]'' line \<and> \<not> sublist ''[DEBUG]'' line)
            then [] else remove_csi line)"
    by (simp add: handle_csi_def handle_matches_ok)
next
  assume "\<exists>(arg, cmd) \<in> set (finditer line). CHR '';'' \<in> set arg"
  then obtain arg cmd where "(arg, cmd) \<in> set (finditer line)" "CHR '';'' \<in> set arg"
    by auto
  then have "handle_matches sd (finditer line) line = Inl ValueError"
    using handle_matches_raises by blast
  then show "handle_csi sd line = Inl ValueError"
    by (simp add: handle_csi_def)
qed

lemma unique_split:
  "a \<notin> set xs \<Longrightarrow> a \<notin> set ys \<Longrightarrow> xs @ a # ys = xs' @ a # ys' \<Longrightarrow> xs = xs' \<and> ys = ys'"
proof (induction xs arbitrary: xs')
  case Nil
  then show ?case by (cases xs') auto
next
  case (Cons x xs)
  then show ?case by (cases xs') auto
qed

lemma param_run_unique:
  assumes "list_all is_param a" "list_all is_param b" "\<not> is_param c" "\<not> is_param d"
    and "a @ c # r = b @ d # r'"
  shows "a = b \<and> c = d"
proof -
  have "takeWhile is_param (a @ c # r) = a"
    using assms(1,3) by (simp add: list_all_iff takeWhile_append2)
  moreover have "takeWhile is_param (b @ d # r') = b"
    using assms(2,4) by (simp add: list_all_iff takeWhile_append2)
  ultimately have "a = b" using assms(5) by simp
  then show ?thesis using assms(5) by simp
qed

lemma finditer_sound:
  "(arg, c) \<in> set (finditer line) \<Longrightarrow> \<exists>pre post. line = pre @ ESC # CHR ''['' # arg @ c # post"
proof (induction line rule: length_induct)
  case (1 s)
  show ?case
  proof (cases s)
    case Nil
    then show ?thesis using "1.prems" by simp
  next
    case (Cons x xs)
    show ?thesis
    proof (cases "match_csi (x # xs)")
      case None
      then have "(arg, c) \<in> set (finditer xs)" using "1.prems" Cons by simp
      moreover have "length xs < length s" using Cons by simp
      ultimately obtain pre post where "xs = pre @ ESC # CHR ''['' # arg @ c # post"
        using "1.IH" by blast
      then have "s = (x # pre) @ ESC # CHR ''['' # arg @ c # post" using Cons by simp
      then show ?thesis by blast
    next
      case (Some m)
      obtain a cmd rest where m: "m = (a, cmd, rest)" by (cases m) auto
      obtain soh stx where st: "s = soh @ ESC # CHR ''['' # a @ cmd # stx @ rest"
        using match_csi_structure Some m Cons by blast
      have sh: "length rest < length s"
        using Some m Cons match_csi_shorter by blast
      have "(arg, c) = (a, cmd) \<or> (arg, c) \<in> set (finditer rest)"
        using "1.prems" Cons Some m by simp
      then show ?thesis
      proof
        assume "(arg, c) = (a, cmd)"
        then show ?thesis using st by blast
      next
        assume "(arg, c) \<in> set (finditer rest)"
        then obtain pre post where "rest = pre @ ESC # CHR ''['' # arg @ c # post"
          using "1.IH" sh by blast
        then have "s = (soh @ ESC # CHR ''['' # a @ cmd # stx @ pre) @ ESC # CHR ''['' # arg @ c # post"
          using st by simp
        then show ?thesis by blast
      qed
    qed
  qed
qed

lemma finditer_complete:
  assumes "list_all is_param arg" and "is_command c"
  shows "line = pre @ ESC # CHR ''['' # arg @ c # post \<Longrightarrow> (arg, c) \<in> set (finditer line)"
proof (induction line arbitrary: pre rule: length_induct)
  case (1 s)
  let ?Q = "CHR ''['' # arg @ c # post"
  have "s \<noteq> []" using "1.prems" by simp
  then obtain x xs where Cons: "s = x # xs" by (cases s) auto
  show ?case
  proof (cases "match_csi (x # xs)")
    case None
    have "pre \<noteq> []"
    proof
      assume "pre = []"
      then have "match_csi (x # xs) = Some (arg, c, opt_byte STX post)"
        using "1.prems" Cons match_csi_core [OF assms] by simp
      then show False using None by simp
    qed
    then obtain pre' where "pre = x # pre'" and "xs = pre' @ ESC # ?Q"
      using "1.prems" Cons by (cases pre) auto
    moreover have "length xs < length s" using Cons by simp
    ultimately have "(arg, c) \<in> set (finditer xs)" using "1.IH" by blast
    then show ?thesis using None Cons by simp
  next
    case (Some m)
    obtain a cmd rest where m: "m = (a, cmd, rest)" by (cases m) auto
    obtain soh stx where st: "s = soh @ ESC # CHR ''['' # a @ cmd # stx @ rest"
      and soh: "soh = [] \<or> soh = [SOH]" and stx: "stx = [] \<or> stx = [STX]"
      and pa: "list_all is_param a" and cc: "is_command cmd"
      using match_csi_structure Some m Cons by blast
    have sh: "length rest < length s"
      using Some m Cons match_csi_shorter by blast
    have fi: "finditer s = (a, cmd) # finditer rest"
      using Some m Cons by simp
    let ?R = "CHR ''['' # a @ cmd # stx"
    have esc_soh: "ESC \<notin> set soh" using soh by auto
    have "\<not> is_param ESC" by (simp add: is_param_def is_digit_def)
    then have e1: "ESC \<notin> set a" using pa by (auto simp: list_all_iff)
    have "\<not> is_command ESC" by (simp add: is_command_def)
    then have e2: "cmd \<noteq> ESC" using cc by auto
    have e3: "ESC \<notin> set stx" using stx by auto
    have esc_R: "ESC \<notin> set ?R"
      using e1 e2 e3 by simp
    have "(soh @ ESC # ?R) @ rest = pre @ ESC # ?Q"
      using st "1.prems" by simp
    then obtain vs where vs:
      "(soh @ ESC # ?R = pre @ vs \<and> vs @ rest = ESC # ?Q) \<or>
       ((soh @ ESC # ?R) @ vs = pre \<and> rest = vs @ ESC # ?Q)"
      unfolding append_eq_append_conv2 by blast
    have "(\<exists>us. soh @ ESC # ?R = pre @ us \<and> us @ rest = ESC # ?Q \<and> us \<noteq> []) \<or>
          (\<exists>us. rest = us @ ESC # ?Q)"
    proof (cases "vs = []")
      case True
      then have "rest = [] @ ESC # ?Q" using vs by auto
      then show ?thesis by blast
    next
      case False
      then show ?thesis using vs by blast
    qed
    then consider
      (inside) us where "soh @ ESC # ?R = pre @ us" "us @ rest = ESC # ?Q" "us \<noteq> []"
      | (after) us where "rest = us @ ESC # ?Q"
      by blast
    then show ?thesis
    proof cases
      case after
      then have "(arg, c) \<in> set (finditer rest)" using "1.IH" sh by blast
      then show ?thesis by (simp add: fi)
    next
      case inside
      then obtain us' where us: "us = ESC # us'" by (cases us) auto
      have "soh @ ESC # ?R = pre @ ESC # us'" using inside(1) us by simp
      then have eq: "soh = pre" "?R = us'"
        using unique_split [OF esc_soh esc_R] by blast+
      have "?R @ rest = ?Q" using inside(2) us eq by simp
      then have "a @ cmd # (stx @ rest) = arg @ c # post" by simp
      then have "a = arg \<and> cmd = c"
        using param_run_unique [OF pa assms(1) command_not_param [OF cc] command_not_param [OF assms(2)]]
        by blast
      then show ?thesis by (simp add: fi)
    qed
  qed
qed

lemma finditer_contains:
  assumes "is_command c"
  shows "(\<exists>arg. (arg, c) \<in> set (finditer line)) \<longleftrightarrow>
         (\<exists>pre arg post. line = pre @ ESC # CHR ''['' # arg @ c # post \<and> list_all is_param arg)"
proof
  assume "\<exists>arg. (arg, c) \<in> set (finditer line)"
  then obtain arg where a: "(arg, c) \<in> set (finditer line)" by blast
  then have "list_all is_param arg" using finditer_params by blast
  then show "\<exists>pre arg post. line = pre @ ESC # CHR ''['' # arg @ c # post \<and> list_all is_param arg"
    using finditer_sound [OF a] by blast
next
  assume "\<exists>pre arg post. line = pre @ ESC # CHR ''['' # arg @ c # post \<and> list_all is_param arg"
  then show "\<exists>arg. (arg, c) \<in> set (finditer line)"
    using finditer_complete assms by blast
qed


lemma handle_csi_cursor_up_policy:
  assumes "\<forall>(arg, cmd) \<in> set (finditer line).
             CHR '';'' \<notin> set arg \<and> length arg \<le> int_max_str_digits"
  shows "handle_csi sd line =
       Inr (if (\<exists>pre arg post. line = pre @ ESC # CHR ''['' # arg @ CHR ''A'' # post \<and>
                   list_all is_param arg) \<and>
               (\<not> sublist ''0%'' line \<and> \<not> sd \<and>
                \<not> sublist ''[INFO]'' line \<and> \<not> sublist ''[DEBUG]'' line)
            then [] else remove_csi line)"
proof -
  have "is_command (CHR ''A'')" by (simp add: is_command_def)
  then have "(\<exists>arg. (arg, CHR ''A'') \<in> set (finditer line)) \<longleftrightarrow>
     (\<exists>pre arg post. line = pre @ ESC # CHR ''['' # arg @ CHR ''A'' # post \<and> list_all is_param arg)"
    by (rule finditer_contains)
  then show ?thesis using handle_csi_policy(1) [OF assms, of sd] by simp
qed

text \<open>
  C3, at the failing input. The pattern accepts semicolons among the parameters, and the
  loop of \<open>_handle_csi\<close> converts every non-empty parameter string with \<open>int\<close>:
  on the line \<open>ESC [1;2A LF\<close> the filter raises \<open>ValueError\<close> instead of suppressing
  the line or stripping the sequence, with the shutdown flag set or not. (On a line
  whose sequences have no semicolon and no parameter string longer than the
  interpreter converts, the filter does what C3 says: \<open>handle_csi_cursor_up_policy\<close>.)
\<close>

theorem handle_csi_semicolon_raises:
  "handle_csi sd ([ESC] @ ''[1;2A'' @ [LF]) = Inl ValueError \<and>
   filter_line sd ([ESC] @ ''[1;2A'' @ [LF]) = Inl ValueError"
  by (simp add: filter_eval)

lemma takeWhile_param_cr: "takeWhile is_param (r @ CR # ys) = takeWhile is_param r"
  by (induction r) (simp_all add: is_param_def is_digit_def)

lemma dropWhile_param_cr: "dropWhile is_param (r @ CR # ys) = dropWhile is_param r @ CR # ys"
  by (induction r) (simp_all add: is_param_def is_digit_def)

lemma opt_byte_cr: "b \<noteq> CR \<Longrightarrow> opt_byte b (s @ CR # ys) = opt_byte b s @ CR # ys"
  by (cases s) (simp_all add: opt_byte_def)

lemma match_csi_append_cr:
  "match_csi (s @ CR # ys) =
     (case match_csi s of None \<Rightarrow> None | Some (a, c, rest) \<Rightarrow> Some (a, c, rest @ CR # ys))"
proof -
  have nc: "\<not> is_command CR" by (simp add: is_command_def)
  obtain u where u: "opt_byte SOH s = u" by blast
  have o: "opt_byte SOH (s @ CR # ys) = u @ CR # ys"
    using u by (simp add: opt_byte_cr)
  show ?thesis
  proof (cases u)
    case Nil
    then show ?thesis using u o by (simp add: match_csi_def split: list.splits)
  next
    case (Cons e u1)
    show ?thesis
    proof (cases u1)
      case Nil
      then show ?thesis using u o Cons by (simp add: match_csi_def)
    next
      case (Cons b r)
      show ?thesis
      proof (cases "dropWhile is_param r")
        case Nil
        then show ?thesis
          using u o \<open>u = e # u1\<close> Cons nc
          by (simp add: match_csi_def dropWhile_param_cr del: dropWhile_eq_Nil_conv)
      next
        case (Cons c r')
        then show ?thesis
          using u o \<open>u = e # u1\<close> \<open>u1 = b # r\<close>
          by (simp add: match_csi_def dropWhile_param_cr takeWhile_param_cr opt_byte_cr)
      qed
    qed
  qed
qed

lemma remove_csi_append_cr: "remove_csi (xs @ CR # ys) = remove_csi xs @ CR # remove_csi ys"
proof (induction xs rule: length_induct)
  case (1 xs)
  show ?case
  proof (cases xs)
    case Nil
    have "match_csi (CR # ys) = None"
      using match_csi_append_cr [of "[]" ys] by (simp add: match_csi_def opt_byte_def)
    then show ?thesis using Nil by simp
  next
    case (Cons x xs')
    show ?thesis
    proof (cases "match_csi (x # xs')")
      case None
      then have "match_csi (x # xs' @ CR # ys) = None"
        using match_csi_append_cr [of "x # xs'" ys] by simp
      moreover have "length xs' < length xs" using Cons by simp
      ultimately show ?thesis using "1.IH" None Cons by simp
    next
      case (Some m)
      obtain a c rest where m: "m = (a, c, rest)" by (cases m) auto
      have "match_csi (x # xs' @ CR # ys) = Some (a, c, rest @ CR # ys)"
        using Some m match_csi_append_cr [of "x # xs'" ys] by simp
      moreover have "length rest < length xs"
        using Some m Cons match_csi_shorter by blast
      ultimately show ?thesis using "1.IH" Some m Cons by simp
    qed
  qed
qed

lemma set_remove_csi: "set (remove_csi s) \<subseteq> set s"
proof (induction s rule: length_induct)
  case (1 s)
  show ?case
  proof (cases s)
    case Nil
    then show ?thesis by simp
  next
    case (Cons x xs)
    show ?thesis
    proof (cases "match_csi (x # xs)")
      case None
      moreover have "length xs < length s" using Cons by simp
      ultimately show ?thesis using "1.IH" Cons by auto
    next
      case (Some m)
      obtain a c rest where m: "m = (a, c, rest)" by (cases m) auto
      obtain soh stx where "s = soh @ ESC # CHR ''['' # a @ c # stx @ rest"
        using match_csi_structure Some m Cons by blast
      then have "set rest \<subseteq> set s" by auto
      moreover have "length rest < length s"
        using Some m Cons match_csi_shorter by blast
      ultimately show ?thesis using "1.IH" Some m Cons by auto
    qed
  qed
qed

lemma unique_suffix_after:
  assumes "a \<notin> set t" and "a \<notin> set t'" and "p @ a # t = p' @ a # t'"
  shows "t = t'"
proof -
  have tw: "takeWhile (\<lambda>x. x \<noteq> a) (rev u @ a # v) = rev u" if "a \<notin> set u" for u v
  proof -
    have "takeWhile (\<lambda>x. x \<noteq> a) (rev u @ a # v) = takeWhile (\<lambda>x. x \<noteq> a) (rev u)"
      by (rule takeWhile_tail) simp
    also have "\<dots> = rev u"
      using that by (auto simp: takeWhile_eq_all_conv)
    finally show ?thesis .
  qed
  have A: "takeWhile (\<lambda>x. x \<noteq> a) (rev t @ a # rev p) = rev t"
    using assms(1) by (rule tw)
  have B: "takeWhile (\<lambda>x. x \<noteq> a) (rev t' @ a # rev p') = rev t'"
    using assms(2) by (rule tw)
  have "rev (p @ a # t) = rev (p' @ a # t')" using assms(3) by simp
  then have "rev t @ a # rev p = rev t' @ a # rev p'" by simp
  then have "rev t = rev t'" using A B by simp
  then show ?thesis by simp
qed

lemma last_split_remove_csi:
  "last (split_bytes CR (remove_csi line)) = remove_csi (last (split_bytes CR line))"
proof (cases "CR \<in> set line")
  case False
  then have "CR \<notin> set (remove_csi line)" using set_remove_csi by blast
  then show ?thesis using False by (simp add: split_bytes_no_sep)
next
  case True
  let ?t = "last (split_bytes CR line)"
  obtain pre where l: "line = pre @ CR # ?t" using last_split_suffix [OF True] by blast
  have "CR \<notin> set ?t" by (rule last_split_no_sep)
  then have nt: "CR \<notin> set (remove_csi ?t)" using set_remove_csi by blast
  have r: "remove_csi line = remove_csi pre @ CR # remove_csi ?t"
    using l remove_csi_append_cr by metis
  have "CR \<in> set (remove_csi line)" by (simp add: r)
  then obtain p where p: "remove_csi line = p @ CR # last (split_bytes CR (remove_csi line))"
    using last_split_suffix by blast
  have "CR \<notin> set (last (split_bytes CR (remove_csi line)))" by (rule last_split_no_sep)
  then show ?thesis
    using unique_suffix_after [OF _ nt, of "last (split_bytes CR (remove_csi line))" p "remove_csi pre"] p r
    by simp
qed

lemma handle_matches_cases: "handle_matches sd ms line = Inr l \<Longrightarrow> l = line \<or> l = []"
proof (induction ms arbitrary: line)
  case Nil
  then show ?case by simp
next
  case (Cons m ms)
  obtain arg cmd where m: "m = (arg, cmd)" by (cases m) auto
  from Cons.prems obtain line' where
    "handle_matches sd ms line' = Inr l" and "line' = line \<or> line' = []"
    by (auto simp: m split: sum.splits if_splits)
  then show ?case using Cons.IH by blast
qed

section \<open>The text after the last carriage return\<close>

lemma handle_csi_cases: "handle_csi sd line = Inr h \<Longrightarrow> h = [] \<or> h = remove_csi line"
proof -
  assume "handle_csi sd line = Inr h"
  then obtain l where "handle_matches sd (finditer line) line = Inr l" and h: "h = remove_csi l"
    by (auto simp: handle_csi_def split: sum.splits)
  then have "l = line \<or> l = []" using handle_matches_cases by blast
  then show ?thesis using h by auto
qed

text \<open>
  C8. Whatever \<open>_handle_csi\<close> returned for a line, suppressed or not, the text that
  goes on to be written has no carriage return: it is that result when the result has no
  carriage return, and otherwise what stands after its last one. In terms of the line
  itself: when the line has a carriage return, the text written is empty (the line was
  suppressed, or nothing but sequences followed) or it is what stands after the last
  carriage return of the line, with the sequences removed. The line \<open>A CR B CR C\<close> is
  filtered to \<open>C\<close>, whether or not the monitor is shutting down.
\<close>

theorem carriage_return_truncation:
  "(handle_csi sd line = Inr h \<longrightarrow>
      (\<exists>t. filter_line sd line = Inr t \<and> CR \<notin> set t \<and>
           (CR \<in> set h \<longrightarrow> (\<exists>pre. h = pre @ CR # t)) \<and>
           (CR \<notin> set h \<longrightarrow> t = h) \<and>
           (CR \<in> set line \<longrightarrow>
              (\<exists>pre post. line = pre @ CR # post \<and> CR \<notin> set post \<and>
                          (t = [] \<or> t = remove_csi post))))) \<and>
   filter_line sd [CHR ''A'', CR, CHR ''B'', CR, CHR ''C''] = Inr ''C''"
proof (intro conjI impI)
  assume h: "handle_csi sd line = Inr h"
  let ?t = "last (split_bytes CR h)"
  have 1: "filter_line sd line = Inr ?t"
    by (simp add: filter_line_def h last_item_split)
  have 2: "CR \<notin> set ?t" by (rule last_split_no_sep)
  have 3: "CR \<in> set h \<longrightarrow> (\<exists>pre. h = pre @ CR # ?t)"
    using last_split_suffix by blast
  have 4: "CR \<notin> set h \<longrightarrow> ?t = h"
    by (simp add: split_bytes_no_sep)
  have 5: "CR \<in> set line \<longrightarrow>
             (\<exists>pre post. line = pre @ CR # post \<and> CR \<notin> set post \<and>
                         (?t = [] \<or> ?t = remove_csi post))"
  proof
    assume cr: "CR \<in> set line"
    let ?post = "last (split_bytes CR line)"
    obtain pre where l: "line = pre @ CR # ?post" using last_split_suffix [OF cr] by blast
    have n: "CR \<notin> set ?post" by (rule last_split_no_sep)
    have "h = [] \<or> h = remove_csi line" using h by (rule handle_csi_cases)
    then have "?t = [] \<or> ?t = remove_csi ?post"
      using last_split_remove_csi [of line] by auto
    then show "\<exists>pre post. line = pre @ CR # post \<and> CR \<notin> set post \<and>
                         (?t = [] \<or> ?t = remove_csi post)"
      using l n by blast
  qed
  show "\<exists>t. filter_line sd line = Inr t \<and> CR \<notin> set t \<and>
           (CR \<in> set h \<longrightarrow> (\<exists>pre. h = pre @ CR # t)) \<and>
           (CR \<notin> set h \<longrightarrow> t = h) \<and>
           (CR \<in> set line \<longrightarrow>
              (\<exists>pre post. line = pre @ CR # post \<and> CR \<notin> set post \<and>
                          (t = [] \<or> t = remove_csi post)))"
    using 1 2 3 4 5 by blast
next
  show "filter_line sd [CHR ''A'', CR, CHR ''B'', CR, CHR ''C''] = Inr ''C''"
    by (simp add: filter_eval)
qed

theorem carriage_return_truncation_witness:
  "handle_csi False [CHR ''A'', CR, CHR ''B'', CR, CHR ''C'']
     = Inr [CHR ''A'', CR, CHR ''B'', CR, CHR ''C''] \<and>
   (\<exists>t. filter_line False [CHR ''A'', CR, CHR ''B'', CR, CHR ''C''] = Inr t \<and>
        CR \<notin> set t \<and>
        (\<exists>pre. [CHR ''A'', CR, CHR ''B'', CR, CHR ''C''] = pre @ CR # t))"
proof -
  have h: "handle_csi False [CHR ''A'', CR, CHR ''B'', CR, CHR ''C'']
             = Inr [CHR ''A'', CR, CHR ''B'', CR, CHR ''C'']"
    by (simp add: filter_eval)
  show ?thesis
    using h carriage_return_truncation
      [of False "[CHR ''A'', CR, CHR ''B'', CR, CHR ''C'']"
          "[CHR ''A'', CR, CHR ''B'', CR, CHR ''C'']"]
    by auto
qed

section \<open>Filtering twice\<close>

lemma finditer_Nil_remove: "finditer s = [] \<Longrightarrow> remove_csi s = s"
  by (induction s rule: finditer.induct) (auto split: option.splits)

lemma remove_csi_length: "length (remove_csi s) \<le> length s"
proof (induction s rule: remove_csi.induct)
  case 1
  then show ?case by simp
next
  case (2 c cs)
  show ?case
  proof (cases "match_csi (c # cs)")
    case None
    then show ?thesis using 2 by simp
  next
    case (Some m)
    obtain arg cmd rest where m: "m = (arg, cmd, rest)" by (cases m) auto
    have "length rest < length (c # cs)"
      using Some m match_csi_shorter by blast
    moreover have "length (remove_csi rest) \<le> length rest"
      using 2(2) [OF Some, of arg "(cmd, rest)" cmd rest] m by simp
    ultimately show ?thesis using Some m by simp
  qed
qed

lemma remove_csi_shorter: "finditer s \<noteq> [] \<Longrightarrow> length (remove_csi s) < length s"
proof (induction s rule: finditer.induct)
  case 1
  then show ?case by simp
next
  case (2 c cs)
  show ?case
  proof (cases "match_csi (c # cs)")
    case None
    then show ?thesis using 2 by simp
  next
    case (Some m)
    obtain arg cmd rest where m: "m = (arg, cmd, rest)" by (cases m) auto
    have "length rest < length (c # cs)"
      using Some m match_csi_shorter by blast
    moreover have "length (remove_csi rest) \<le> length rest"
      by (rule remove_csi_length)
    ultimately show ?thesis using Some m by simp
  qed
qed

lemma last_split_length: "length (last (split_bytes sep s)) \<le> length s"
  by (induction s) (auto split: list.splits simp: split_bytes_nonempty)

lemma filter_line_no_cr: "filter_line sd l = Inr r \<Longrightarrow> CR \<notin> set r"
  by (auto simp: filter_line_def last_item_split last_split_no_sep split: sum.splits)

text \<open>
  C7 as amended. For a line the filter accepts, filtering the result again returns it
  unchanged exactly when the result contains no match of the pattern. (It may contain
  one: the pattern is removed in a single pass, and the bytes on both sides of a removed
  sequence can form a new sequence.)
\<close>

theorem filter_idempotent_iff:
  assumes "filter_line sd l = Inr r"
  shows "filter_line sd r = Inr r \<longleftrightarrow> finditer r = []"
proof
  assume none: "finditer r = []"
  have "handle_csi sd r = Inr r"
    by (simp add: handle_csi_def none finditer_Nil_remove)
  moreover have "CR \<notin> set r" using assms by (rule filter_line_no_cr)
  ultimately show "filter_line sd r = Inr r"
    by (simp add: filter_line_def last_item_split split_bytes_no_sep)
next
  assume same: "filter_line sd r = Inr r"
  show "finditer r = []"
  proof (rule ccontr)
    assume some: "finditer r \<noteq> []"
    then have "r \<noteq> []" by auto
    from same obtain l' where
      hm: "handle_matches sd (finditer r) r = Inr l'" and
      r: "r = last (split_bytes CR (remove_csi l'))"
      by (auto simp: filter_line_def handle_csi_def last_item_split split: sum.splits)
    have "length r \<le> length (remove_csi l')"
      using r last_split_length by metis
    moreover have "l' = r \<or> l' = []" using hm by (rule handle_matches_cases)
    moreover have "length (remove_csi r) < length r" using some by (rule remove_csi_shorter)
    ultimately show False using \<open>r \<noteq> []\<close> by auto
  qed
qed

theorem filter_idempotent_iff_witness:
  "filter_line False (''10%'' @ [ESC] @ ''[A'') = Inr ''10%'' \<and>
   filter_line False ''10%'' = Inr ''10%'' \<and> finditer ''10%'' = []"
proof -
  have a: "filter_line False (''10%'' @ [ESC] @ ''[A'') = Inr ''10%''"
    by (simp add: filter_eval)
  have b: "finditer ''10%'' = []" by (simp add: filter_eval)
  show ?thesis using a b filter_idempotent_iff [OF a] by simp
qed

text \<open>C7 fails as stated: the line \<open>a ESC ESC [B [B b LF\<close> is filtered to
  \<open>a ESC [B b LF\<close>, and that line is filtered to \<open>a b LF\<close>.\<close>

theorem filter_not_idempotent:
  "filter_line False ([CHR ''a'', ESC, ESC] @ ''[B[Bb'' @ [LF]) = Inr ([CHR ''a'', ESC] @ ''[Bb'' @ [LF]) \<and>
   filter_line False ([CHR ''a'', ESC] @ ''[Bb'' @ [LF]) = Inr (''ab'' @ [LF])"
  by (simp add: filter_eval)

section \<open>Flushing an empty buffer\<close>

text \<open>
  C9. When the position of a monitor's buffer is zero, \<open>_store_buffered_logs\<close> returns
  without an exception and leaves the whole state as it was: no file is created or
  written, and the tracking client receives no \<open>log_artifact\<close> call.
\<close>

theorem flush_empty_noop:
  "pos (io_buffer (monitors s i)) = 0 \<Longrightarrow>
     store_buffered_logs i s = (None, s) \<and>
     files (snd (store_buffered_logs i s)) = files s \<and>
     artifacts (snd (store_buffered_logs i s)) = artifacts s"
  by (simp add: store_buffered_logs_def)

text \<open>The witness is the state after a start, a write and a flush: the buffer still
  holds the bytes of the line, its position is back at zero, and a second flush does
  nothing.\<close>

theorem flush_empty_noop_witness:
  "pos (io_buffer (monitors
      (run [Start 0, Write_out (Str [CHR ''h'', LF]), Collect 0]
         (initial_state example_cfg)) 0)) = 0 \<and>
   content (io_buffer (monitors
      (run [Start 0, Write_out (Str [CHR ''h'', LF]), Collect 0]
         (initial_state example_cfg)) 0)) = [CHR ''h'', LF] \<and>
   store_buffered_logs 0
      (run [Start 0, Write_out (Str [CHR ''h'', LF]), Collect 0]
         (initial_state example_cfg))
     = (None, run [Start 0, Write_out (Str [CHR ''h'', LF]), Collect 0]
                (initial_state example_cfg))"
proof -
  let ?s = "run [Start 0, Write_out (Str [CHR ''h'', LF]), Collect 0]
              (initial_state example_cfg)"
  have p: "pos (io_buffer (monitors ?s 0)) = 0"
    by (simp add: state_eval call_writer_numeral filter_eval Let_def)
  have c: "content (io_buffer (monitors ?s 0)) = [CHR ''h'', LF]"
    by (simp add: state_eval call_writer_numeral filter_eval Let_def)
  show ?thesis
    using p c flush_empty_noop [OF p] by simp
qed

section \<open>The result of the health check\<close>

text \<open>
  C6. \<open>health_check\<close> makes one request: a GET of \<open>tracking_uri/health\<close> with a
  timeout of 60 seconds and the single header \<open>Authorization\<close>, whose value is
  \<open>Bearer\<close>, a space and the token of the environment (the word \<open>None\<close> when the
  variable is unset). Whatever else the client would answer, the outcome is decided by
  the answer to that request: an exception of the client propagates; the check returns
  exactly when the body is \<open>OK\<close>; for any other body it raises a connection error whose
  message names the tracking URI, followed by the hint about authentication exactly when
  the environment holds no token (the variable is unset or empty).
\<close>

theorem health_check_result:
  fixes env :: "string \<Rightarrow> string option"
  defines "token \<equiv> env ''MLFLOW_TRACKING_TOKEN''"
  defines "header \<equiv> (case token of
                        None \<Rightarrow> [(''Authorization'', ''Bearer None'')]
                      | Some tok \<Rightarrow> [(''Authorization'', ''Bearer '' @ tok)])"
  shows
  "(http_get (tracking_uri @ ''/health'') header 60 = Inl e \<longrightarrow>
      health_check env http_get tracking_uri = Inl e) \<and>
   (http_get (tracking_uri @ ''/health'') header 60 = Inr body \<longrightarrow>
      (health_check env http_get tracking_uri = Inr () \<longleftrightarrow> body = ''OK'') \<and>
      (body \<noteq> ''OK'' \<longrightarrow>
         health_check env http_get tracking_uri =
           Inl (ConnectionError
             (''Could not connect to MLflow server at '' @ tracking_uri @ ''. '' @
              (if token = None \<or> token = Some []
               then ''The server may require authentication, did you forget to turn it on in the config?''
               else []))))) \<and>
   (http_get' (tracking_uri @ ''/health'') header 60 = http_get (tracking_uri @ ''/health'') header 60 \<longrightarrow>
      health_check env http_get' tracking_uri = health_check env http_get tracking_uri)"
proof -
  have h: "[(''Authorization'', ''Bearer '' @ format_opt (env ''MLFLOW_TRACKING_TOKEN''))] = header"
    by (simp add: header_def token_def format_opt_def split: option.splits)
  have f: "falsy (env ''MLFLOW_TRACKING_TOKEN'') \<longleftrightarrow> token = None \<or> token = Some []"
    by (simp add: falsy_def token_def split: option.splits)
  have hc: "health_check env g tracking_uri =
      (case g (tracking_uri @ ''/health'') header 60 of
         Inl e \<Rightarrow> Inl e
       | Inr response_text \<Rightarrow>
           if response_text = ''OK'' then Inr ()
           else Inl (ConnectionError
             (if token = None \<or> token = Some []
              then (''Could not connect to MLflow server at '' @ tracking_uri @ ''. '') @
                   ''The server may require authentication, did you forget to turn it on in the config?''
              else ''Could not connect to MLflow server at '' @ tracking_uri @ ''. '')))" for g
    unfolding health_check_def Let_def h f by (rule refl)
  show ?thesis
    by (auto simp: hc)
qed

text \<open>The witness has a server that answers only the request with the token
  \<open>secret\<close> in the header, and refuses it; a second server accepts it; a third
  environment has no token.\<close>

theorem health_check_result_witness:
  "health_check (\<lambda>k. if k = ''MLFLOW_TRACKING_TOKEN'' then Some ''secret'' else None)
      (\<lambda>u h t. if u = ''http://srv/health'' \<and> h = [(''Authorization'', ''Bearer secret'')] \<and> t = (60::nat)
               then Inr ''Forbidden'' else Inl RequestException)
      ''http://srv''
     = Inl (ConnectionError ''Could not connect to MLflow server at http://srv. '') \<and>
   health_check (\<lambda>k. if k = ''MLFLOW_TRACKING_TOKEN'' then Some ''secret'' else None)
      (\<lambda>u h t. if u = ''http://srv/health'' \<and> h = [(''Authorization'', ''Bearer secret'')] \<and> t = (60::nat)
               then Inr ''OK'' else Inl RequestException)
      ''http://srv''
     = Inr () \<and>
   health_check (\<lambda>k. if k = ''MLFLOW_TRACKING_TOKEN'' then Some ''secret'' else None)
      (\<lambda>u h t. Inl RequestException)
      ''http://srv''
     = Inl RequestException \<and>
   health_check (\<lambda>k. None)
      (\<lambda>u h t. if u = ''http://srv/health'' \<and> h = [(''Authorization'', ''Bearer None'')] \<and> t = (60::nat)
               then Inr ''Forbidden'' else Inl RequestException)
      ''http://srv''
     = Inl (ConnectionError
         ''Could not connect to MLflow server at http://srv. The server may require authentication, did you forget to turn it on in the config?'')"
  using
    health_check_result
      [of "\<lambda>u h t. if u = ''http://srv/health'' \<and> h = [(''Authorization'', ''Bearer secret'')] \<and> t = (60::nat)
               then Inr ''Forbidden'' else Inl RequestException"
          "''http://srv''" "\<lambda>k. if k = ''MLFLOW_TRACKING_TOKEN'' then Some ''secret'' else None"
          RequestException "''Forbidden''"]
    health_check_result
      [of "\<lambda>u h t. if u = ''http://srv/health'' \<and> h = [(''Authorization'', ''Bearer secret'')] \<and> t = (60::nat)
               then Inr ''OK'' else Inl RequestException"
          "''http://srv''" "\<lambda>k. if k = ''MLFLOW_TRACKING_TOKEN'' then Some ''secret'' else None"
          RequestException "''OK''"]
    health_check_result
      [of "\<lambda>u h t. Inl RequestException"
          "''http://srv''" "\<lambda>k. if k = ''MLFLOW_TRACKING_TOKEN'' then Some ''secret'' else None"
          RequestException "''OK''"]
    health_check_result
      [of "\<lambda>u h t. if u = ''http://srv/health'' \<and> h = [(''Authorization'', ''Bearer None'')] \<and> t = (60::nat)
               then Inr ''Forbidden'' else Inl RequestException"
          "''http://srv''" "\<lambda>k. None" RequestException "''Forbidden''"]
  by simp

section \<open>Hyperparameter batches\<close>

declare batches_from.simps [simp del]

lemma del_items_distinct:
  "distinct keys \<Longrightarrow> set keys \<subseteq> set (map fst params) \<Longrightarrow>
     del_items keys params = Inr (filter (\<lambda>kv. fst kv \<notin> set keys) params)"
proof (induction keys arbitrary: params)
  case Nil
  then show ?case by simp
next
  case (Cons key keys)
  let ?p = "filter (\<lambda>kv. fst kv \<noteq> key) params"
  have d: "del_item key params = Inr ?p"
    using Cons.prems by (simp add: del_item_def)
  have "set keys \<subseteq> set (map fst ?p)"
    using Cons.prems by force
  then have "del_items keys ?p = Inr (filter (\<lambda>kv. fst kv \<notin> set keys) ?p)"
    using Cons.IH Cons.prems by simp
  moreover have "filter (\<lambda>kv. fst kv \<notin> set keys) ?p
        = filter (\<lambda>kv. fst kv \<notin> set (key # keys)) params"
    by (induction params) auto
  ultimately show ?case by (simp add: d)
qed

lemma clean_params_filter:
  assumes "distinct (map fst params)"
  shows "clean_params params
     = Inr (filter (\<lambda>(k, v). \<not> (\<exists>p \<in> set prefixes_to_remove. prefix p k)) params)"
proof -
  let ?bad = "\<lambda>key. list_ex (\<lambda>p. prefix p key) prefixes_to_remove"
  let ?keys = "filter ?bad (map fst params)"
  have "del_items ?keys params = Inr (filter (\<lambda>kv. fst kv \<notin> set ?keys) params)"
    using assms by (intro del_items_distinct) auto
  moreover have "filter (\<lambda>kv. fst kv \<notin> set ?keys) params
       = filter (\<lambda>(k, v). \<not> (\<exists>p \<in> set prefixes_to_remove. prefix p k)) params"
    by (rule filter_cong) (auto simp: list_ex_iff)
  ultimately show ?thesis by (simp add: clean_params_def)
qed

lemma concat_batches_from: "concat (batches_from idx xs) = drop idx xs"
proof (induction idx xs rule: batches_from.induct)
  case (1 idx xs)
  show ?case
  proof (cases "idx < length xs")
    case True
    have "take 100 (drop idx xs) @ drop (idx + 100) xs = drop idx xs"
      by (metis add.commute append_take_drop_id drop_drop)
    then show ?thesis using True 1 by (subst batches_from.simps) simp
  next
    case False
    then show ?thesis by (subst batches_from.simps) simp
  qed
qed

lemma ceil_step:
  assumes "idx < (n::nat)"
  shows "Suc ((n - (idx + 100) + 99) div 100) = (n - idx + 99) div 100"
proof (cases "100 \<le> n - idx")
  case True
  then have "n - idx + 99 = (n - (idx + 100) + 99) + 100" by simp
  then show ?thesis by (simp only: div_add_self2)
next
  case False
  then have a: "n - (idx + 100) = 0" by simp
  have "(n - idx + 99) div 100 = 1"
    using assms False by (intro div_nat_eqI) simp_all
  then show ?thesis by (simp add: a)
qed

lemma length_batches_from: "length (batches_from idx xs) = (length xs - idx + 99) div 100"
proof (induction idx xs rule: batches_from.induct)
  case (1 idx xs)
  show ?case
  proof (cases "idx < length xs")
    case True
    then have "length (batches_from idx xs) = Suc ((length xs - (idx + 100) + 99) div 100)"
      using 1 by (subst batches_from.simps) simp
    also have "\<dots> = (length xs - idx + 99) div 100"
      using True by (rule ceil_step)
    finally show ?thesis .
  next
    case False
    then show ?thesis by (subst batches_from.simps) simp
  qed
qed

lemma nth_batches_from:
  "j < length (batches_from idx xs) \<Longrightarrow>
     batches_from idx xs ! j = take 100 (drop (idx + 100 * j) xs)"
proof (induction idx xs arbitrary: j rule: batches_from.induct)
  case (1 idx xs)
  show ?case
  proof (cases "idx < length xs")
    case True
    have eq: "batches_from idx xs = take 100 (drop idx xs) # batches_from (idx + 100) xs"
      using True by (subst batches_from.simps) simp
    show ?thesis
    proof (cases j)
      case 0
      then show ?thesis by (simp add: eq)
    next
      case (Suc k)
      then have "k < length (batches_from (idx + 100) xs)"
        using "1.prems" eq by simp
      then have "batches_from (idx + 100) xs ! k = take 100 (drop (idx + 100 + 100 * k) xs)"
        using "1.IH" True by blast
      then show ?thesis by (simp add: eq Suc add.assoc)
    qed
  next
    case False
    then have "batches_from idx xs = []" by (subst batches_from.simps) simp
    then show ?thesis using "1.prems" by simp
  qed
qed

lemma batches_from_sizes:
  "b \<in> set (batches_from idx xs) \<Longrightarrow> 0 < length b \<and> length b \<le> 100"
proof (induction idx xs rule: batches_from.induct)
  case (1 idx xs)
  show ?case
  proof (cases "idx < length xs")
    case True
    have eq: "batches_from idx xs = take 100 (drop idx xs) # batches_from (idx + 100) xs"
      using True by (subst batches_from.simps) simp
    show ?thesis using "1.prems" "1.IH" True by (auto simp: eq)
  next
    case False
    then have "batches_from idx xs = []" by (subst batches_from.simps) simp
    then show ?thesis using "1.prems" by simp
  qed
qed

text \<open>
  C10. With hyperparameter logging enabled and the flattened dictionary well formed (its
  keys are distinct), the body of \<open>log_hyperparams\<close> raises nothing and sends, after
  the calls the client already had, the batches of the list made as follows: the items
  of \<open>flatten_dict(convert_params(params), ".")\<close> whose key starts with none of the
  seven prefixes, in their order, each value printed and cut to its first 250
  characters. Batch \<open>j\<close> is items \<open>100 j\<close> to \<open>100 j + 99\<close> of that list, so the
  batches are consecutive, none is empty or longer than 100, and there are
  \<open>ceil(N / 100)\<close> of them for \<open>N\<close> surviving items.
\<close>

theorem log_hyperparams_batches:
  fixes flatten_dict :: "'d \<Rightarrow> string \<Rightarrow> (string \<times> 'v) list"
    and str_of :: "'v \<Rightarrow> 'c list"
    and convert_params :: "'p \<Rightarrow> 'd"
  assumes "distinct (map fst (flatten_dict (convert_params params) ''.''))"
  defines "kept \<equiv> filter (\<lambda>(k, v). \<not> (\<exists>p \<in> set prefixes_to_remove. prefix p k))
                      (flatten_dict (convert_params params) ''.'')"
  defines "params_list \<equiv> map (\<lambda>(k, v). (k, take 250 (str_of v))) kept"
  shows "\<exists>batches.
           log_hyperparams True convert_params flatten_dict str_of params calls
             = (None, calls @ batches) \<and>
           concat batches = params_list \<and>
           length batches = (length kept + 99) div 100 \<and>
           (\<forall>j < length batches. batches ! j = take 100 (drop (100 * j) params_list)) \<and>
           (\<forall>b \<in> set batches. 0 < length b \<and> length b \<le> 100) \<and>
           (\<forall>b \<in> set batches. \<forall>(k, v) \<in> set b. length v \<le> 250)"
proof -
  let ?bs = "batches_from 0 params_list"
  have c: "clean_params (flatten_dict (convert_params params) ''.'') = Inr kept"
    using assms(1) by (simp add: clean_params_filter kept_def)
  have 1: "log_hyperparams True convert_params flatten_dict str_of params calls
             = (None, calls @ ?bs)"
    by (simp add: log_hyperparams_def c params_list_def)
  have 2: "concat ?bs = params_list" by (simp add: concat_batches_from)
  have 3: "length ?bs = (length kept + 99) div 100"
    by (simp add: length_batches_from params_list_def)
  have 4: "\<forall>j < length ?bs. ?bs ! j = take 100 (drop (100 * j) params_list)"
    using nth_batches_from [of _ 0 params_list] by simp
  have 5: "\<forall>b \<in> set ?bs. 0 < length b \<and> length b \<le> 100"
    using batches_from_sizes by blast
  have "\<forall>(k, v) \<in> set params_list. length v \<le> 250"
    by (auto simp: params_list_def)
  then have "\<forall>(k, v) \<in> set (concat ?bs). length v \<le> 250" by (simp add: 2)
  then have 6: "\<forall>b \<in> set ?bs. \<forall>(k, v) \<in> set b. length v \<le> 250" by auto
  show ?thesis using 1 2 3 4 5 6 by blast
qed

theorem log_hyperparams_batches_witness:
  "distinct (map fst [(''data.x'', ''1''), (''lr'', ''2''), (''model.n'', ''3''), (''seed'', ''4'')]) \<and>
   log_hyperparams True (\<lambda>p. p) (\<lambda>d delim. d) (\<lambda>v. v)
      [(''data.x'', ''1''), (''lr'', ''2''), (''model.n'', ''3''), (''seed'', ''4'')] []
     = (None, [[(''lr'', ''2''), (''seed'', ''4'')]])"
  using log_hyperparams_batches
    [of "\<lambda>d delim. d" "\<lambda>p. p"
        "[(''data.x'', ''1''), (''lr'', ''2''), (''model.n'', ''3''), (''seed'', ''4'')]"
        "\<lambda>v. v" "[]"]
  by (simp add: log_hyperparams_def clean_params_def del_item_def prefixes_to_remove_def
        batches_from.simps)

section \<open>The registry and the stream patches\<close>

lemma append_file_frame [simp]:
  "class_part (append_file path t s) = class_part s"
  "monitors (append_file path t s) = monitors s"
  "artifacts (append_file path t s) = artifacts s"
  by (simp_all add: append_file_def class_part_def)

lemma upd_monitor_frame [simp]:
  "class_part (upd_monitor i f s) = class_part s"
  "monitors (upd_monitor i f s) = (monitors s)(i := f (monitors s i))"
  by (simp_all add: upd_monitor_def class_part_def)

lemma write_lines_frame:
  "class_part (snd (write_lines sd path ls s)) = class_part s \<and>
   monitors (snd (write_lines sd path ls s)) = monitors s"
  by (induction ls arbitrary: s) (auto split: sum.splits)

lemma store_buffered_logs_class [simp]:
  "class_part (snd (store_buffered_logs i s)) = class_part s"
proof -
  have *: "class_part (snd (case write_lines sd path ls s0 of
              (Some e, s2) \<Rightarrow> (Some e, s2)
            | (None, s2) \<Rightarrow> (None, s2\<lparr>artifacts := artifacts s2 @ [a]\<rparr>))) = class_part s0"
    for sd path ls s0 a
    using write_lines_frame [of sd path ls s0]
    by (auto simp: class_part_def split: prod.splits option.splits)
  show ?thesis
    by (simp add: store_buffered_logs_def Let_def * split: prod.splits)
qed

lemma store_buffered_logs_monitors:
  "monitors (snd (store_buffered_logs i s)) j =
     (if j = i \<and> pos (io_buffer (monitors s i)) \<noteq> 0
      then (monitors s i)\<lparr>io_buffer := \<lparr>content = content (io_buffer (monitors s i)), pos = 0\<rparr>\<rparr>
      else monitors s j)"
proof -
  have *: "monitors (snd (case write_lines sd path ls s0 of
              (Some e, s2) \<Rightarrow> (Some e, s2)
            | (None, s2) \<Rightarrow> (None, s2\<lparr>artifacts := artifacts s2 @ [a]\<rparr>))) = monitors s0"
    for sd path ls s0 a
    using write_lines_frame [of sd path ls s0]
    by (auto split: prod.splits option.splits)
  show ?thesis
    by (auto simp: store_buffered_logs_def Let_def * bio_read_def bio_seek_def split: prod.splits)
qed

lemma fan_out_frame [simp]: "class_part (fan_out b s) = class_part s"
proof -
  have "class_part (foldl (\<lambda>s' i. upd_monitor i f s') s xs) = class_part s" for f xs
    by (induction xs arbitrary: s) auto
  then show ?thesis by (simp add: fan_out_def)
qed

lemma call_writer_class [simp]:
  "class_part (snd (call_writer k w d s)) = class_part s"
proof (induction k w d s rule: call_writer.induct)
  case (1 w d s)
  then show ?case by simp
next
  case (2 k d s)
  then show ?case by (cases d) (simp_all add: class_part_def)
next
  case (3 k d s)
  then show ?case by (cases d) (simp_all add: class_part_def)
next
  case (4 k d s)
  show ?case
  proof (cases "old_out_write s")
    case None
    then show ?thesis by simp
  next
    case (Some w)
    obtain e s' where r: "call_writer k w d s = (e, s')" by (cases "call_writer k w d s")
    have "class_part s' = class_part s" using 4 [OF Some] r by simp
    then show ?thesis using Some r by (cases e; cases "encode d") simp_all
  qed
next
  case (5 k d s)
  show ?case
  proof (cases "old_err_write s")
    case None
    then show ?thesis by simp
  next
    case (Some w)
    obtain e s' where r: "call_writer k w d s = (e, s')" by (cases "call_writer k w d s")
    have "class_part s' = class_part s" using 5 [OF Some] r by simp
    then show ?thesis using Some r by (cases e; cases "encode d") simp_all
  qed
qed

lemma patch_invariant_class:
  "class_part s' = class_part s \<Longrightarrow> patch_invariant s' = patch_invariant s"
  by (simp add: class_part_def patch_invariant_def)

lemma patch_invariant_initial: "patch_invariant (initial_state cfg)"
  by (simp add: patch_invariant_def initial_state_def)

lemma start_invariant:
  assumes "patch_invariant s"
  shows "patch_invariant (snd (start i s))"
proof (cases "started (monitors s i)")
  case True
  then show ?thesis using assms by (simp add: start_def)
next
  case False
  show ?thesis
  proof (cases "buffer_registry s = []")
    case True
    then show ?thesis using assms False
      by (simp add: start_def Let_def upd_monitor_def install_stream_patches_def
            patch_invariant_def)
  next
    case nonempty: False
    then show ?thesis using assms False
      by (simp add: start_def Let_def upd_monitor_def patch_invariant_def)
  qed
qed

lemma finish_invariant:
  assumes "patch_invariant s"
  shows "patch_invariant (snd (finish i status s))"
proof (cases "started (monitors s i)")
  case False
  then show ?thesis using assms by (simp add: finish_def)
next
  case True
  let ?s1 = "upd_monitor i (\<lambda>m. m\<lparr>shutdown := True\<rparr>) s"
  obtain e s2 where r: "store_buffered_logs i ?s1 = (e, s2)"
    by (cases "store_buffered_logs i ?s1")
  have c: "class_part s2 = class_part s"
    using store_buffered_logs_class [of i ?s1] r by simp
  then have inv2: "patch_invariant s2"
    using assms patch_invariant_class by blast
  show ?thesis
  proof (cases e)
    case (Some err)
    then show ?thesis using True r inv2 by (simp add: finish_def Let_def)
  next
    case None
    show ?thesis
    proof (cases "i \<in> set (buffer_registry s2)")
      case False
      then show ?thesis using True r None inv2 by (simp add: finish_def Let_def)
    next
      case mem: True
      then have ne: "buffer_registry s2 \<noteq> []" by auto
      let ?s3 = "s2\<lparr>buffer_registry := removeAll i (buffer_registry s2)\<rparr>"
      let ?s4 = "if buffer_registry ?s3 = [] then uninstall_stream_patches ?s3 else ?s3"
      have "patch_invariant ?s4"
        using inv2 ne by (simp add: patch_invariant_def uninstall_stream_patches_def)
      then have "patch_invariant (append_file (file_save_path (monitors ?s4 i)) [LF, LF] ?s4)"
        using patch_invariant_class append_file_frame(1) by blast
      then show ?thesis using True r None mem by (simp add: finish_def Let_def)
    qed
  qed
qed

lemma exec_class:
  "class_part (snd (exec c s)) = class_part s \<or>
   (\<exists>i. c = Start i) \<or> (\<exists>i st. c = Finish i st) \<or> (\<exists>i. c = Gc i)"
proof (cases c)
  case (Collect i)
  obtain e s' where r: "store_buffered_logs i s = (e, s')"
    by (cases "store_buffered_logs i s")
  then have "class_part s' = class_part s"
    using store_buffered_logs_class [of i s] by simp
  then show ?thesis using Collect r by (cases e) simp_all
qed (simp_all add: sys_stdout_write_def sys_stderr_write_def split: option.splits)

lemma exec_invariant:
  assumes "patch_invariant s" and "\<forall>i. c \<noteq> Gc i"
  shows "patch_invariant (snd (exec c s))"
proof -
  consider "class_part (snd (exec c s)) = class_part s"
    | i where "c = Start i" | i st where "c = Finish i st"
    using exec_class [of c s] assms(2) by blast
  then show ?thesis
  proof cases
    case 1
    then show ?thesis using assms(1) patch_invariant_class by blast
  next
    case 2
    then show ?thesis using assms(1) start_invariant by simp
  next
    case 3
    then show ?thesis using assms(1) finish_invariant by simp
  qed
qed

lemma run_snoc: "run (cs @ [c]) s = snd (exec c (run cs s))"
  by (simp add: run_def)

text \<open>
  As long as no monitor is collected, the registry and the patches stay in step: after a
  run without a collection, from the initial state, the streams hold the wrapping
  writers exactly when the registry is not empty, the originals captured are the
  interpreter's own write functions, and the patches have been installed once more than
  uninstalled exactly when the registry is not empty.
\<close>

lemma run_invariant:
  "patch_invariant s \<Longrightarrow> \<forall>i. Gc i \<notin> set cs \<Longrightarrow> patch_invariant (run cs s)"
proof (induction cs rule: rev_induct)
  case Nil
  then show ?case by (simp add: run_def)
next
  case (snoc c cs)
  then have "patch_invariant (run cs s)" and "\<forall>i. c \<noteq> Gc i" by auto
  then show ?case by (simp add: run_snoc exec_invariant)
qed

lemma registry_invariant_without_collection:
  assumes "\<forall>i. Gc i \<notin> set cs"
  shows "(installed (run cs (initial_state cfg)) \<longleftrightarrow> buffer_registry (run cs (initial_state cfg)) \<noteq> []) \<and>
         installs (run cs (initial_state cfg))
           = uninstalls (run cs (initial_state cfg)) +
             (if buffer_registry (run cs (initial_state cfg)) = [] then 0 else 1) \<and>
         old_out_write (run cs (initial_state cfg)) \<noteq> Some New_out_write \<and>
         old_err_write (run cs (initial_state cfg)) \<noteq> Some New_err_write"
proof -
  have "patch_invariant (run cs (initial_state cfg))"
    using assms by (simp add: run_invariant patch_invariant_initial)
  then show ?thesis
    by (auto simp: patch_invariant_def installed_def split: if_splits)
qed

lemma store_empty: "pos (io_buffer (monitors s i)) = 0 \<Longrightarrow> store_buffered_logs i s = (None, s)"
  by (simp add: store_buffered_logs_def)

lemma shutdown_idem: "shutdown m \<Longrightarrow> m\<lparr>shutdown := True\<rparr> = m"
  by (cases m) simp

lemma finish_result:
  assumes "started (monitors s i)" and "finish i status s = (None, s')"
  shows "started (monitors s' i) \<and> shutdown (monitors s' i) \<and>
         pos (io_buffer (monitors s' i)) = 0 \<and> i \<notin> set (buffer_registry s')"
proof -
  let ?s1 = "upd_monitor i (\<lambda>m. m\<lparr>shutdown := True\<rparr>) s"
  obtain e s2 where r: "store_buffered_logs i ?s1 = (e, s2)"
    by (cases "store_buffered_logs i ?s1")
  have e: "e = None" and mem: "i \<in> set (buffer_registry s2)"
    using assms r by (auto simp: finish_def Let_def split: option.splits if_splits)
  let ?s3 = "s2\<lparr>buffer_registry := removeAll i (buffer_registry s2)\<rparr>"
  let ?s4 = "if buffer_registry ?s3 = [] then uninstall_stream_patches ?s3 else ?s3"
  have s': "s' = append_file (file_save_path (monitors ?s4 i)) [LF, LF] ?s4"
    using assms r e mem by (simp add: finish_def Let_def)
  have m: "monitors s' = monitors s2"
    by (simp add: s' uninstall_stream_patches_def)
  have reg: "buffer_registry s' = removeAll i (buffer_registry s2)"
    by (simp add: s' append_file_def uninstall_stream_patches_def)
  have m2: "monitors s2 i =
     (if pos (io_buffer (monitors ?s1 i)) \<noteq> 0
      then (monitors ?s1 i)\<lparr>io_buffer := \<lparr>content = content (io_buffer (monitors ?s1 i)), pos = 0\<rparr>\<rparr>
      else monitors ?s1 i)"
    using store_buffered_logs_monitors [of i ?s1 i] r by simp
  have "started (monitors s2 i) \<and> shutdown (monitors s2 i) \<and> pos (io_buffer (monitors s2 i)) = 0"
    using assms(1) by (simp add: m2)
  then show ?thesis by (simp add: m reg)
qed

lemma start_twice: "started (monitors s i) \<Longrightarrow> start i s = (None, s)"
  by (simp add: start_def)

lemma finish_unstarted: "\<not> started (monitors s i) \<Longrightarrow> finish i status s = (None, s)"
  by (simp add: finish_def)

text \<open>
  C2, at the failing input and for every state. \<open>finish\<close> never resets
  \<open>_started\<close>: when a started monitor has been finished without an exception, a second
  \<open>finish\<close> passes the guard, finds the buffer flushed and then raises \<open>KeyError\<close>
  at \<^verbatim>\<open>del self._buffer_registry[id(self)]\<close>. (Starting twice, and finishing a
  monitor that was never started, do return at the guards: \<open>start_twice\<close> and
  \<open>finish_unstarted\<close>.)
\<close>

theorem second_finish_raises:
  assumes "started (monitors s i)" and "finish i status s = (None, s')"
  shows "finish i status' s' = (Some KeyError, s')"
proof -
  have f: "started (monitors s' i)" "shutdown (monitors s' i)"
    "pos (io_buffer (monitors s' i)) = 0" "i \<notin> set (buffer_registry s')"
    using finish_result [OF assms] by blast+
  have same: "upd_monitor i (\<lambda>m. m\<lparr>shutdown := True\<rparr>) s' = s'"
    using f(2) by (simp add: upd_monitor_def shutdown_idem)
  have "store_buffered_logs i s' = (None, s')"
    using f(3) by (rule store_empty)
  then show ?thesis
    using f(1) f(4) by (simp add: finish_def same)
qed

theorem second_finish_raises_witness:
  "started (monitors (run [Start 0] (initial_state example_cfg)) 0) \<and>
   fst (finish 0 ''success'' (run [Start 0] (initial_state example_cfg))) = None \<and>
   finish 0 ''success''
     (snd (finish 0 ''success'' (run [Start 0] (initial_state example_cfg))))
     = (Some KeyError,
        snd (finish 0 ''success'' (run [Start 0] (initial_state example_cfg))))"
proof -
  let ?s = "run [Start 0] (initial_state example_cfg)"
  have a: "started (monitors ?s 0)"
    by (simp add: state_eval Let_def)
  have b: "fst (finish 0 ''success'' ?s) = None"
    by (simp add: state_eval Let_def)
  then have c: "finish 0 ''success'' ?s = (None, snd (finish 0 ''success'' ?s))"
    by (metis prod.collapse)
  show ?thesis
    using a b second_finish_raises [OF a c] by blast
qed

lemma captured_wrapper_recurses:
  "old_out_write s = Some New_out_write \<Longrightarrow>
     call_writer k New_out_write d s = (Some RecursionError, s)"
  by (induction k) simp_all


text \<open>
  The two class methods have no guard of their own. Installing twice captures the
  wrapping writer as the original, and a write then recurses until \<open>RecursionError\<close>;
  uninstalling before any install stores \<open>None\<close> in \<open>sys.stdout.write\<close>, and a write
  is then a \<open>TypeError\<close>.
\<close>

lemma class_methods_unguarded:
  "old_out_write (install_stream_patches (install_stream_patches
      (initial_state example_cfg))) = Some New_out_write \<and>
   sys_stdout_write (Str ''x'') (install_stream_patches (install_stream_patches
      (initial_state example_cfg)))
     = (Some RecursionError, install_stream_patches (install_stream_patches
          (initial_state example_cfg))) \<and>
   stdout_write (uninstall_stream_patches (initial_state example_cfg)) = None \<and>
   fst (sys_stdout_write (Str ''x'')
          (uninstall_stream_patches (initial_state example_cfg)))
     = Some TypeError"
proof -
  let ?s = "install_stream_patches (install_stream_patches
      (initial_state example_cfg))"
  have a: "old_out_write ?s = Some New_out_write"
    by (simp add: install_stream_patches_def initial_state_def)
  have b: "stdout_write ?s = Some New_out_write"
    by (simp add: install_stream_patches_def initial_state_def)
  have c: "sys_stdout_write (Str ''x'') ?s = (Some RecursionError, ?s)"
    by (simp add: sys_stdout_write_def b captured_wrapper_recurses [OF a])
  have d: "stdout_write (uninstall_stream_patches (initial_state example_cfg)) = None"
    by (simp add: uninstall_stream_patches_def initial_state_def)
  have e: "fst (sys_stdout_write (Str ''x'')
          (uninstall_stream_patches (initial_state example_cfg)))
     = Some TypeError"
    by (simp add: sys_stdout_write_def d)
  show ?thesis using a c d e by blast
qed

text \<open>
  C1, at the failing input. Monitor 0 is started; a line with a two-parameter cursor-up
  sequence is written; the collector thread's flush raises on that line, which ends the
  thread; the monitor, dropped by its owner, is collected. Its entry has left the weak
  registry, and nothing has uninstalled the patches: the registry is empty and the
  streams hold the wrapping writers. Starting monitor 1 then finds the registry empty
  and installs a second time: two buffers have been registered and the patches
  installed twice, never uninstalled.
\<close>

theorem collection_empties_registry:
  "buffer_registry (run collected_run (initial_state example_cfg)) = [] \<and>
   installed (run collected_run (initial_state example_cfg)) \<and>
   installs (run collected_run (initial_state example_cfg)) = 1 \<and>
   uninstalls (run collected_run (initial_state example_cfg)) = 0 \<and>
   buffer_registry (run (collected_run @ [Start 1]) (initial_state example_cfg)) = [1] \<and>
   installs (run (collected_run @ [Start 1]) (initial_state example_cfg)) = 2 \<and>
   uninstalls (run (collected_run @ [Start 1]) (initial_state example_cfg)) = 0"
  by (simp add: collected_run_def installed_def state_eval call_writer_numeral filter_eval
        Let_def)

text \<open>
  C4, at the failing input. After the same steps the patches are installed and the
  registry is empty, so the guard of \<open>start\<close> lets the install through: starting
  monitor 1 installs over the installed patches, the wrapping writers are captured as
  the originals, and from then on a write to standard output recurses until
  \<open>RecursionError\<close>.
\<close>

theorem start_reinstalls_after_collection:
  "installed (run collected_run (initial_state example_cfg)) \<and>
   old_out_write (run collected_run (initial_state example_cfg)) = Some Orig_out \<and>
   old_out_write (run (collected_run @ [Start 1]) (initial_state example_cfg))
     = Some New_out_write \<and>
   old_err_write (run (collected_run @ [Start 1]) (initial_state example_cfg))
     = Some New_err_write \<and>
   fst (sys_stdout_write (Str ''x'')
          (run (collected_run @ [Start 1]) (initial_state example_cfg)))
     = Some RecursionError"
proof -
  let ?s = "run (collected_run @ [Start 1]) (initial_state example_cfg)"
  have a: "installed (run collected_run (initial_state example_cfg))"
    "old_out_write (run collected_run (initial_state example_cfg)) = Some Orig_out"
    by (simp_all add: collected_run_def installed_def state_eval call_writer_numeral
          filter_eval Let_def)
  have b: "old_out_write ?s = Some New_out_write" "old_err_write ?s = Some New_err_write"
    "stdout_write ?s = Some New_out_write"
    by (simp_all add: collected_run_def state_eval call_writer_numeral filter_eval Let_def)
  have "sys_stdout_write (Str ''x'') ?s
          = call_writer recursion_limit New_out_write (Str ''x'') ?s"
    by (simp only: sys_stdout_write_def b(3) option.case)
  also have "\<dots> = (Some RecursionError, ?s)"
    by (rule captured_wrapper_recurses [OF b(1)])
  finally have c: "fst (sys_stdout_write (Str ''x'') ?s) = Some RecursionError"
    by (simp only: fst_conv)
  show ?thesis using a b c by blast
qed

section \<open>Leaving the collector loop\<close>






end
